theory Spec2Isabelle
  imports Complex_Main "HOL-Library.Multiset" "HOL-Library.Sublist"
    "HOL-Library.Char_ord" "HOL-Library.List_Lexorder" "HOL-Library.Option_ord"
begin

section \<open>The gas classifier notebook\<close>

text \<open>
  The program is one notebook, \<^verbatim>\<open>gas_classifier.ipynb\<close>. Its code cells load a table,
  fill missing values, balance the classes, split, standardise, select features by
  correlation and tune two support vector classifiers. Every cell is a short sequence of
  calls into pandas, numpy and scikit-learn; the embedding below follows each cell line by
  line and gives each library routine the behaviour its implementation has for the
  arguments the notebook passes. Floating-point numbers are modelled as real numbers, with
  the not-a-number value as \<open>None\<close>; a Python exception is a value of type \<open>exn\<close>.
\<close>

datatype exn = ValueError string | KeyError string

subsection \<open>Data frames\<close>

text \<open>
  A pandas data frame is a list of named, typed columns. A numeric column holds floats,
  a missing entry being NaN (\<open>None\<close>); an object column holds Python objects, a missing
  entry being \<^verbatim>\<open>None\<close>/NaN as well. \<^verbatim>\<open>pd.read_csv\<close> makes the column names distinct.
\<close>

datatype pyobj = PyStr string | PyFloat real

datatype column = NumCol "real option list" | ObjCol "pyobj option list"

type_synonym dataframe = "(string \<times> column) list"

subsection \<open>Cell 4: filling missing values\<close>

text \<open>
  \<^verbatim>\<open>data_cleaned = data.fillna(data.mean(numeric_only=True))\<close>

  \<^verbatim>\<open>Series.mean\<close> skips missing entries; the mean of a column without any present entry
  is NaN.
\<close>

definition nanmean :: "real option list \<Rightarrow> real option" where
  "nanmean xs =
     (let vs = List.map_filter id xs
      in if vs = [] then None else Some (sum_list vs / real (length vs)))"

text \<open>\<^verbatim>\<open>DataFrame.mean(numeric_only=True)\<close>: a series with one entry per numeric column.\<close>

definition mean_numeric_only :: "dataframe \<Rightarrow> (string \<times> real option) list" where
  "mean_numeric_only df =
     List.map_filter (\<lambda>(n, c). case c of NumCol xs \<Rightarrow> Some (n, nanmean xs) | ObjCol _ \<Rightarrow> None) df"

text \<open>
  \<^verbatim>\<open>Series.fillna(v)\<close> on one column: every missing entry becomes \<open>v\<close>; filling with
  NaN changes nothing.
\<close>

fun fillna_col :: "real option \<Rightarrow> column \<Rightarrow> column" where
  "fillna_col None c = c"
| "fillna_col (Some m) (NumCol xs) =
     NumCol (map (\<lambda>x. case x of None \<Rightarrow> Some m | Some v \<Rightarrow> Some v) xs)"
| "fillna_col (Some m) (ObjCol xs) =
     ObjCol (map (\<lambda>x. case x of None \<Rightarrow> Some (PyFloat m) | Some v \<Rightarrow> Some v) xs)"

text \<open>
  \<^verbatim>\<open>DataFrame.fillna(series)\<close>: the series is aligned on the column names; a column
  whose name is not in the series is left as it is. The call returns a new frame.
\<close>

definition fillna :: "dataframe \<Rightarrow> (string \<times> real option) list \<Rightarrow> dataframe" where
  "fillna df val =
     map (\<lambda>(n, c). case map_of val n of None \<Rightarrow> (n, c) | Some v \<Rightarrow> (n, fillna_col v c)) df"

text \<open>The notebook's variables that cell 4 reads and writes.\<close>

record namespace =
  data :: dataframe
  data_cleaned :: dataframe

definition cell_4 :: "namespace \<Rightarrow> namespace" where
  "cell_4 ns = ns\<lparr>data_cleaned := fillna (data ns) (mean_numeric_only (data ns))\<rparr>"

subsection \<open>Random number generators\<close>

text \<open>
  A numpy \<^verbatim>\<open>RandomState\<close> is the sequence of the raw draws it still has to
  give. The process has one global generator, which a call with \<^verbatim>\<open>random_state=None\<close>
  uses, and \<^verbatim>\<open>RandomState(seed)\<close> builds the generator of an integer seed. Neither
  sequence is fixed here: every statement below holds for all of them.
\<close>

type_synonym rng = "nat \<Rightarrow> nat"

record environment =
  seeded :: "nat \<Rightarrow> rng"
  global_rng :: rng

text \<open>\<^verbatim>\<open>sklearn.utils.check_random_state\<close>, which pandas' \<^verbatim>\<open>com.random_state\<close> mirrors.\<close>

definition check_random_state :: "environment \<Rightarrow> nat option \<Rightarrow> rng" where
  "check_random_state env seed =
     (case seed of None \<Rightarrow> global_rng env | Some s \<Rightarrow> seeded env s)"

text \<open>The generator after \<open>k\<close> draws.\<close>

definition advance :: "nat \<Rightarrow> rng \<Rightarrow> rng" where
  "advance k g = (\<lambda>i. g (i + k))"

text \<open>
  \<^verbatim>\<open>rng.randint(low, high, size=n)\<close>: \<open>n\<close> draws, each reduced into
  \<open>[low, high)\<close>. The call raises when the interval is empty.
\<close>

definition randint :: "rng \<Rightarrow> nat \<Rightarrow> nat \<Rightarrow> nat \<Rightarrow> exn + nat list" where
  "randint g low high n =
     (if high \<le> low then Inl (ValueError ''low >= high'')
      else Inr (map (\<lambda>i. low + g i mod (high - low)) [0..<n]))"

text \<open>
  \<^verbatim>\<open>rng.shuffle(x)\<close>, the loop \<^verbatim>\<open>for i in reversed(range(1, n)): j = draw in [0, i];
  x[i], x[j] = x[j], x[i]\<close>, and \<^verbatim>\<open>rng.permutation(x)\<close>, which shuffles a copy.
\<close>

fun shuffle_loop :: "rng \<Rightarrow> nat \<Rightarrow> 'a list \<Rightarrow> 'a list" where
  "shuffle_loop g 0 xs = xs"
| "shuffle_loop g (Suc i) xs =
     (let j = g 0 mod (Suc (Suc i))
      in shuffle_loop (advance 1 g) i (xs[Suc i := xs ! j, j := xs ! Suc i]))"

definition permutation :: "rng \<Rightarrow> 'a list \<Rightarrow> 'a list" where
  "permutation g xs = shuffle_loop g (length xs - 1) xs"

text \<open>
  \<^verbatim>\<open>rng.choice(a, size=k, replace=False)\<close> without weights: the first \<open>k\<close> entries of
  a permutation.
\<close>

definition choice :: "rng \<Rightarrow> 'a list \<Rightarrow> nat \<Rightarrow> 'a list" where
  "choice g a k = take k (permutation g a)"

subsection \<open>Cell 6: balancing the classes\<close>

text \<open>
  From here on a frame is read as the list of its rows; \<open>class_column\<close> gives the
  entry of a row in the column \<^verbatim>\<open>'gas_label'\<close>, \<open>None\<close> when it is missing.

  \<^verbatim>\<open>Series.value_counts()\<close> drops the missing entries, counts each value, and sorts
  by count, largest first; values with equal counts stay in the order of their first
  occurrence.
\<close>

fun unique_first :: "'a list \<Rightarrow> 'a list" where
  "unique_first [] = []"
| "unique_first (x # xs) = x # removeAll x (unique_first xs)"

definition value_counts :: "'l option list \<Rightarrow> ('l \<times> nat) list" where
  "value_counts col =
     (let vs = List.map_filter id col
      in sort_key (\<lambda>(l, c). - int c) (map (\<lambda>l. (l, count_list vs l)) (unique_first vs)))"

text \<open>\<^verbatim>\<open>Series.max()\<close> and \<^verbatim>\<open>Series.idxmax()\<close> of a series of counts.\<close>

definition series_max :: "('l \<times> nat) list \<Rightarrow> nat" where
  "series_max s = foldr max (map snd s) 0"

definition idxmax :: "('l \<times> nat) list \<Rightarrow> exn + 'l" where
  "idxmax s =
     (case filter (\<lambda>(l, c). c = series_max s) s of
        [] \<Rightarrow> Inl (ValueError ''attempt to get argmax of an empty sequence'')
      | (l, c) # _ \<Rightarrow> Inr l)"

text \<open>\<^verbatim>\<open>series[key]\<close>.\<close>

definition getitem :: "('l \<times> nat) list \<Rightarrow> 'l \<Rightarrow> exn + nat" where
  "getitem s k = (case map_of s k of None \<Rightarrow> Inl (KeyError ''label'') | Some c \<Rightarrow> Inr c)"

text \<open>
  \<^verbatim>\<open>sklearn.utils.resample(rows, replace=True, n_samples=n, random_state=seed)\<close>:
  \<^verbatim>\<open>indices = random_state.randint(0, len(rows), size=(n,))\<close>, then the rows at
  these indices.
\<close>

definition resample :: "environment \<Rightarrow> 'r list \<Rightarrow> nat \<Rightarrow> nat option \<Rightarrow> exn + 'r list" where
  "resample env rows n_samples random_state =
     (case randint (check_random_state env random_state) 0 (length rows) n_samples of
        Inl e \<Rightarrow> Inl e
      | Inr indices \<Rightarrow> Inr (map (\<lambda>i. rows ! i) indices))"

text \<open>
  \<^verbatim>\<open>frame.sample(frac=1, random_state=seed).reset_index(drop=True)\<close>: the rows at
  \<^verbatim>\<open>random_state.choice(n, size=n, replace=False)\<close>, renumbered.
\<close>

definition sample_frac_1 :: "environment \<Rightarrow> 'r list \<Rightarrow> nat option \<Rightarrow> 'r list" where
  "sample_frac_1 env rows random_state =
     map (\<lambda>i. rows ! i)
       (choice (check_random_state env random_state) [0..<length rows] (length rows))"

text \<open>
  The loop of the cell:
  \<^verbatim>\<open>
  for minority_class in minority_classes:
      minority_data = data_cleaned[data_cleaned[class_column] == minority_class]
      resampled_minority_data = resample(minority_data, replace=True,
          n_samples=class_distribution[majority_class], random_state=42)
      resampled_data.append(resampled_minority_data)
  \<close>
\<close>

fun resample_minorities ::
  "environment \<Rightarrow> ('r \<Rightarrow> 'l option) \<Rightarrow> 'r list \<Rightarrow> ('l \<times> nat) list \<Rightarrow> 'l \<Rightarrow> 'l list \<Rightarrow>
   'r list list \<Rightarrow> exn + 'r list list" where
  "resample_minorities env class_column cleaned class_distribution majority_class []
     resampled_data = Inr resampled_data"
| "resample_minorities env class_column cleaned class_distribution majority_class
     (minority_class # rest) resampled_data =
     (let minority_data = filter (\<lambda>r. class_column r = Some minority_class) cleaned
      in case getitem class_distribution majority_class of
           Inl e \<Rightarrow> Inl e
         | Inr n \<Rightarrow>
             (case resample env minority_data n (Some 42) of
                Inl e \<Rightarrow> Inl e
              | Inr resampled_minority_data \<Rightarrow>
                  resample_minorities env class_column cleaned class_distribution
                    majority_class rest (resampled_data @ [resampled_minority_data])))"

text \<open>
  The cell, from \<^verbatim>\<open>class_distribution = data_cleaned[class_column].value_counts()\<close> to
  \<^verbatim>\<open>balanced_data = balanced_data.sample(frac=1, random_state=42).reset_index(drop=True)\<close>.
  Its value is \<open>balanced_data\<close>, or the exception that ends the cell; \<open>cleaned\<close>
  is the list of the rows of \<^verbatim>\<open>data_cleaned\<close>.
\<close>

definition cell_6 :: "environment \<Rightarrow> ('r \<Rightarrow> 'l option) \<Rightarrow> 'r list \<Rightarrow> exn + 'r list" where
  "cell_6 env class_column cleaned =
     (let class_distribution = value_counts (map class_column cleaned)
      in case idxmax class_distribution of
           Inl e \<Rightarrow> Inl e
         | Inr majority_class \<Rightarrow>
             (let minority_classes =
                    map fst (filter (\<lambda>(l, c). c \<noteq> series_max class_distribution) class_distribution);
                  resampled_data = [filter (\<lambda>r. class_column r = Some majority_class) cleaned]
              in case resample_minorities env class_column cleaned class_distribution
                        majority_class minority_classes resampled_data of
                   Inl e \<Rightarrow> Inl e
                 | Inr resampled_data \<Rightarrow>
                     Inr (sample_frac_1 env (concat resampled_data) (Some 42))))"

subsection \<open>Cell 8: the stratified split\<close>

text \<open>
  \<^verbatim>\<open>X_train, X_test, y_train, y_test =
      train_test_split(X, y, test_size=0.2, random_state=42, stratify=y)\<close>

  \<^verbatim>\<open>_validate_shuffle_split\<close> with a float \<^verbatim>\<open>test_size\<close> and no \<^verbatim>\<open>train_size\<close>:
  \<^verbatim>\<open>n_test = ceil(test_size * n_samples)\<close>, \<^verbatim>\<open>n_train = n_samples - n_test\<close>, and
  an empty training set is an error. (In double precision \<^verbatim>\<open>0.2 * n\<close> has the ceiling
  of the exact product for every \<open>n\<close> a frame can have.)
\<close>

definition validate_shuffle_split :: "nat \<Rightarrow> real \<Rightarrow> exn + (nat \<times> nat)" where
  "validate_shuffle_split n_samples test_size =
     (if test_size \<le> 0 \<or> test_size \<ge> 1
      then Inl (ValueError ''test_size should be in the (0, 1) range'')
      else
        (let n_test = nat \<lceil>test_size * real n_samples\<rceil>;
             n_train = n_samples - n_test
         in if n_train = 0 then Inl (ValueError ''the resulting train set will be empty'')
            else Inr (n_train, n_test)))"

text \<open>
  The same routine as \<^verbatim>\<open>StratifiedShuffleSplit\<close> calls it, with the two sizes as
  integers.
\<close>

definition validate_sizes :: "nat \<Rightarrow> nat \<Rightarrow> nat \<Rightarrow> exn + unit" where
  "validate_sizes n_samples n_train n_test =
     (if n_test \<ge> n_samples \<or> n_test = 0
      then Inl (ValueError ''test_size should be positive and smaller than the number of samples'')
      else if n_train \<ge> n_samples \<or> n_train = 0
      then Inl (ValueError ''train_size should be positive and smaller than the number of samples'')
      else if n_train + n_test > n_samples
      then Inl (ValueError ''the sum of train_size and test_size should be smaller than the number of samples'')
      else Inr ())"

text \<open>
  \<^verbatim>\<open>_approximate_mode(class_counts, n_draws, rng)\<close>:
  \<^verbatim>\<open>
  continuous = class_counts / class_counts.sum() * n_draws
  floored = np.floor(continuous)
  need_to_add = int(n_draws - floored.sum())
  if need_to_add > 0:
      remainder = continuous - floored
      values = np.sort(np.unique(remainder))[::-1]
      for value in values:
          (inds,) = np.where(remainder == value)
          add_now = min(len(inds), need_to_add)
          inds = rng.choice(inds, size=add_now, replace=False)
          floored[inds] += 1
          need_to_add -= add_now
          if need_to_add == 0:
              break
  return floored.astype(int)
  \<close>
  The quotients are taken in the real numbers. Counts that sum to zero make every
  quotient NaN, which \<^verbatim>\<open>int\<close> refuses. \<open>where_equal remainder v\<close> is
  \<^verbatim>\<open>np.where(remainder == v)\<close>.
\<close>

definition where_equal :: "real list \<Rightarrow> real \<Rightarrow> nat list" where
  "where_equal remainder v = filter (\<lambda>i. remainder ! i = v) [0..<length remainder]"

fun add_draws :: "rng \<Rightarrow> real list \<Rightarrow> real list \<Rightarrow> nat list \<Rightarrow> nat \<Rightarrow> nat list \<times> rng" where
  "add_draws g remainder [] floored need_to_add = (floored, g)"
| "add_draws g remainder (v # vs) floored need_to_add =
     (let inds = where_equal remainder v;
          add_now = min (length inds) need_to_add;
          chosen = choice g inds add_now;
          g' = advance (length inds - 1) g;
          floored' = map (\<lambda>i. if i \<in> set chosen then floored ! i + 1 else floored ! i)
                       [0..<length floored];
          need' = need_to_add - add_now
      in if need' = 0 then (floored', g') else add_draws g' remainder vs floored' need')"

definition approximate_mode :: "rng \<Rightarrow> nat list \<Rightarrow> nat \<Rightarrow> exn + (nat list \<times> rng)" where
  "approximate_mode g class_counts n_draws =
     (if class_counts \<noteq> [] \<and> sum_list class_counts = 0
      then Inl (ValueError ''cannot convert float NaN to integer'')
      else
        (let continuous = map (\<lambda>c. real c / real (sum_list class_counts) * real n_draws) class_counts;
             floored = map (\<lambda>x. nat \<lfloor>x\<rfloor>) continuous;
             need_to_add = n_draws - sum_list floored
         in if need_to_add > 0
            then
              (let remainder = map (\<lambda>x. x - of_int \<lfloor>x\<rfloor>) continuous;
                   vals = rev (sort (remdups remainder))
               in Inr (add_draws g remainder vals floored need_to_add))
            else Inr (floored, g)))"

text \<open>
  \<^verbatim>\<open>StratifiedShuffleSplit._iter_indices\<close>, first split. The loop over the classes:
  \<^verbatim>\<open>
  for i in range(n_classes):
      permutation = rng.permutation(class_counts[i])
      perm_indices_class_i = class_indices[i].take(permutation, mode="clip")
      train.extend(perm_indices_class_i[: n_i[i]])
      test.extend(perm_indices_class_i[n_i[i] : n_i[i] + t_i[i]])
  \<close>
  where \<^verbatim>\<open>class_indices[i]\<close> are the positions of class \<open>i\<close> in \<open>y\<close>, ascending.
\<close>

definition class_indices :: "'y list \<Rightarrow> 'y \<Rightarrow> nat list" where
  "class_indices y c = filter (\<lambda>i. y ! i = c) [0..<length y]"

fun extend_classes ::
  "rng \<Rightarrow> 'y list \<Rightarrow> ('y \<times> nat \<times> nat) list \<Rightarrow> nat list \<Rightarrow> nat list \<Rightarrow>
   nat list \<times> nat list \<times> rng" where
  "extend_classes g y [] train test = (train, test, g)"
| "extend_classes g y ((c, n, t) # rest) train test =
     (let idx = class_indices y c;
          perm = permutation g [0..<length idx];
          perm_indices_class_i = map (\<lambda>k. idx ! k) perm
      in extend_classes (advance (length idx - 1) g) y rest
           (train @ take n perm_indices_class_i)
           (test @ take t (drop n perm_indices_class_i)))"

definition stratified_shuffle_split ::
  "rng \<Rightarrow> 'y::linorder list \<Rightarrow> nat \<Rightarrow> nat \<Rightarrow> exn + (nat list \<times> nat list)" where
  "stratified_shuffle_split g y n_train n_test =
     (case validate_sizes (length y) n_train n_test of
        Inl e \<Rightarrow> Inl e
      | Inr _ \<Rightarrow>
        (let classes = sort (remdups y);
             n_classes = length classes;
             class_counts = map (count_list y) classes
         in if class_counts = [] then Inl (ValueError ''zero-size array'')
            else if Min (set class_counts) < 2
            then Inl (ValueError ''The least populated class in y has only 1 member'')
            else if n_train < n_classes
            then Inl (ValueError ''The train_size should be greater or equal to the number of classes'')
            else if n_test < n_classes
            then Inl (ValueError ''The test_size should be greater or equal to the number of classes'')
            else
              (case approximate_mode g class_counts n_train of
                 Inl e \<Rightarrow> Inl e
               | Inr (n_i, g1) \<Rightarrow>
                 (let class_counts_remaining = map2 (-) class_counts n_i
                  in case approximate_mode g1 class_counts_remaining n_test of
                       Inl e \<Rightarrow> Inl e
                     | Inr (t_i, g2) \<Rightarrow>
                       (case extend_classes g2 y (zip classes (zip n_i t_i)) [] [] of
                          (train, test, g3) \<Rightarrow>
                            Inr (permutation g3 train,
                                 permutation (advance (length train - 1) g3) test))))))"

text \<open>
  \<^verbatim>\<open>train_test_split(X, y, test_size, random_state, stratify=y)\<close>: the sizes, the
  index arrays of the stratified shuffle, and the rows and labels at these indices.
\<close>

definition train_test_split ::
  "environment \<Rightarrow> 'x list \<Rightarrow> 'y::linorder list \<Rightarrow> real \<Rightarrow> nat option \<Rightarrow>
   exn + ('x list \<times> 'x list \<times> 'y list \<times> 'y list)" where
  "train_test_split env X y test_size random_state =
     (if length X \<noteq> length y
      then Inl (ValueError ''Found input variables with inconsistent numbers of samples'')
      else
        (case validate_shuffle_split (length X) test_size of
           Inl e \<Rightarrow> Inl e
         | Inr (n_train, n_test) \<Rightarrow>
           (case stratified_shuffle_split (check_random_state env random_state) y n_train n_test of
              Inl e \<Rightarrow> Inl e
            | Inr (train, test) \<Rightarrow>
                Inr (map (\<lambda>i. X ! i) train, map (\<lambda>i. X ! i) test,
                     map (\<lambda>i. y ! i) train, map (\<lambda>i. y ! i) test))))"

subsection \<open>Cell 8: standardising\<close>

text \<open>
  A two-dimensional numpy array is the list of its rows, all of the same length.
  \<^verbatim>\<open>StandardScaler().fit(X)\<close> stores, for each column, the mean, the variance
  (\<^verbatim>\<open>ddof=0\<close>) and the scale \<^verbatim>\<open>sqrt(var_)\<close>, in which
  \<^verbatim>\<open>_handle_zeros_in_scale\<close> replaces a zero by one. An array without rows is
  refused. The attributes \<^verbatim>\<open>mean_\<close>, \<^verbatim>\<open>var_\<close> and \<^verbatim>\<open>scale_\<close> are the fields
  \<open>mean_attr\<close>, \<open>var_attr\<close> and \<open>scale_attr\<close>.
\<close>

definition column_of :: "'a list list \<Rightarrow> nat \<Rightarrow> 'a list" where
  "column_of X j = map (\<lambda>row. row ! j) X"

definition n_features_of :: "'a list list \<Rightarrow> nat" where
  "n_features_of X = (case X of [] \<Rightarrow> 0 | row # _ \<Rightarrow> length row)"

definition np_mean :: "real list \<Rightarrow> real" where
  "np_mean xs = sum_list xs / real (length xs)"

definition np_var :: "real list \<Rightarrow> real" where
  "np_var xs = sum_list (map (\<lambda>x. (x - np_mean xs)\<^sup>2) xs) / real (length xs)"

record standard_scaler =
  mean_attr :: "real list"
  var_attr :: "real list"
  scale_attr :: "real list"

definition handle_zeros_in_scale :: "real list \<Rightarrow> real list" where
  "handle_zeros_in_scale scale = map (\<lambda>s. if s = 0 then 1 else s) scale"

definition fit :: "real list list \<Rightarrow> exn + standard_scaler" where
  "fit X =
     (if X = [] then Inl (ValueError ''Found array with 0 sample(s)'')
      else
        (let cols = map (column_of X) [0..<n_features_of X]
         in Inr \<lparr>mean_attr = map np_mean cols,
                 var_attr = map np_var cols,
                 scale_attr = handle_zeros_in_scale (map (\<lambda>c. sqrt (np_var c)) cols)\<rparr>))"

text \<open>
  Division of floats does not raise: a zero divisor gives an infinity or NaN. \<open>None\<close>
  stands for such a value.
\<close>

definition np_divide :: "real \<Rightarrow> real \<Rightarrow> real option" where
  "np_divide a b = (if b = 0 then None else Some (a / b))"

text \<open>
  \<^verbatim>\<open>scaler.transform(X)\<close>: \<^verbatim>\<open>X -= mean_; X /= scale_\<close>, on a copy. A row with
  another number of features than the fitted one is refused.
\<close>

definition transform :: "standard_scaler \<Rightarrow> real list list \<Rightarrow> exn + real option list list" where
  "transform scaler X =
     (if \<exists>row \<in> set X. length row \<noteq> length (mean_attr scaler)
      then Inl (ValueError ''X has a different number of features than StandardScaler is expecting'')
      else Inr (map (\<lambda>row. map (\<lambda>j. np_divide (row ! j - mean_attr scaler ! j) (scale_attr scaler ! j))
                               [0..<length row]) X))"

text \<open>
  The cell. \<open>drop_class\<close> gives the entries of a row outside the label column,
  \<open>class_column\<close> its label:
  \<^verbatim>\<open>
  X = balanced_data.drop(columns=[class_column])
  y = balanced_data[class_column]
  X_train, X_test, y_train, y_test = train_test_split(X, y, test_size=0.2, random_state=42, stratify=y)
  scaler = StandardScaler()
  X_train_scaled = scaler.fit_transform(X_train)
  X_test_scaled = scaler.transform(X_test)
  \<close>
\<close>

record 'y split_vars =
  X_train :: "real list list"
  X_test :: "real list list"
  y_train :: "'y list"
  y_test :: "'y list"
  scaler :: standard_scaler
  X_train_scaled :: "real option list list"
  X_test_scaled :: "real option list list"

definition cell_8 ::
  "environment \<Rightarrow> ('r \<Rightarrow> real list) \<Rightarrow> ('r \<Rightarrow> 'y::linorder) \<Rightarrow> 'r list \<Rightarrow> exn + 'y split_vars" where
  "cell_8 env drop_class class_column balanced_data =
     (let X = map drop_class balanced_data;
          y = map class_column balanced_data
      in case train_test_split env X y 0.2 (Some 42) of
           Inl e \<Rightarrow> Inl e
         | Inr (Xtr, Xte, ytr, yte) \<Rightarrow>
           (case fit Xtr of
              Inl e \<Rightarrow> Inl e
            | Inr sc \<Rightarrow>
              (case transform sc Xtr of
                 Inl e \<Rightarrow> Inl e
               | Inr Xtr_scaled \<Rightarrow>
                 (case transform sc Xte of
                    Inl e \<Rightarrow> Inl e
                  | Inr Xte_scaled \<Rightarrow>
                      Inr \<lparr>X_train = Xtr, X_test = Xte, y_train = ytr, y_test = yte,
                           scaler = sc, X_train_scaled = Xtr_scaled,
                           X_test_scaled = Xte_scaled\<rparr>))))"

text \<open>
  Cells 6 and 8 run one after the other on the cleaned frame: the balanced frame of
  cell 6 is the input of cell 8. The value is the balanced frame with the variables of
  cell 8, or the first exception.
\<close>

definition cells_6_to_8 ::
  "environment \<Rightarrow> ('r \<Rightarrow> real list) \<Rightarrow> ('r \<Rightarrow> 'l::linorder option) \<Rightarrow> 'r list \<Rightarrow>
   exn + ('r list \<times> 'l option split_vars)" where
  "cells_6_to_8 env drop_class class_column cleaned =
     (case cell_6 env class_column cleaned of
        Inl e \<Rightarrow> Inl e
      | Inr balanced_data \<Rightarrow>
          (case cell_8 env drop_class class_column balanced_data of
             Inl e \<Rightarrow> Inl e
           | Inr v \<Rightarrow> Inr (balanced_data, v)))"

subsection \<open>Cell 10: correlation and feature selection\<close>

text \<open>
  \<^verbatim>\<open>DataFrame.corr()\<close> is pandas' \<^verbatim>\<open>nancorr\<close>: for each pair of columns one pass
  of Welford's update over the rows in which both entries are finite,
  \<^verbatim>\<open>
  nobs += 1
  dx = vx - meanx;  dy = vy - meany
  meanx += 1. / nobs * dx;  meany += 1. / nobs * dy
  ssqdm_x += (vx - meanx) * dx;  ssqdm_y += (vy - meany) * dy
  covxy += (vx - meanx) * dy
  \<close>
  and then \<^verbatim>\<open>covxy / sqrt(ssqdm_x * ssqdm_y)\<close>, or NaN when no row was used or the
  divisor is zero.
\<close>

record welford =
  nobs :: nat
  meanx :: real
  meany :: real
  ssqdm_x :: real
  ssqdm_y :: real
  covxy :: real

definition welford_step :: "welford \<Rightarrow> real option \<times> real option \<Rightarrow> welford" where
  "welford_step w p =
     (case p of
        (Some vx, Some vy) \<Rightarrow>
          (let n = nobs w + 1;
               dx = vx - meanx w;
               dy = vy - meany w;
               mx = meanx w + 1 / real n * dx;
               my = meany w + 1 / real n * dy
           in \<lparr>nobs = n, meanx = mx, meany = my,
                ssqdm_x = ssqdm_x w + (vx - mx) * dx,
                ssqdm_y = ssqdm_y w + (vy - my) * dy,
                covxy = covxy w + (vx - mx) * dy\<rparr>)
      | _ \<Rightarrow> w)"

definition welford_init :: welford where
  "welford_init = \<lparr>nobs = 0, meanx = 0, meany = 0, ssqdm_x = 0, ssqdm_y = 0, covxy = 0\<rparr>"

definition nancorr_pair :: "real option list \<Rightarrow> real option list \<Rightarrow> real option" where
  "nancorr_pair xs ys =
     (let w = foldl welford_step welford_init (zip xs ys)
      in if nobs w < 1 then None
         else
           (let divisor = sqrt (ssqdm_x w * ssqdm_y w)
            in if divisor \<noteq> 0 then Some (covxy w / divisor) else None))"

text \<open>
  \<^verbatim>\<open>nancorr\<close> fills the matrix from the pairs \<^verbatim>\<open>xi >= yi\<close>:
  \<^verbatim>\<open>result[xi, yi] = result[yi, xi] = ...\<close>. A frame is the list of its named columns;
  the correlation matrix is given by its columns, each indexed like the frame's columns.
\<close>

type_synonym frame = "(string \<times> real option list) list"

definition corr :: "frame \<Rightarrow> frame" where
  "corr df =
     map (\<lambda>j. (fst (df ! j),
               map (\<lambda>i. nancorr_pair (snd (df ! max i j)) (snd (df ! min i j))) [0..<length df]))
       [0..<length df]"

text \<open>
  \<^verbatim>\<open>pd.DataFrame(array, columns=names)\<close>; the number of names must be the number of
  columns of the array.
\<close>

definition DataFrame :: "real option list list \<Rightarrow> string list \<Rightarrow> exn + frame" where
  "DataFrame array names =
     (if \<exists>row \<in> set array. length row \<noteq> length names
      then Inl (ValueError ''Shape of passed values does not match the columns'')
      else Inr (map (\<lambda>j. (names ! j, column_of array j)) [0..<length names]))"

text \<open>
  \<^verbatim>\<open>frame.abs().max() > 0.5\<close>: the largest absolute value of each column, missing
  entries skipped; it is NaN for a column without any entry, and NaN is not greater than
  anything.
\<close>

definition nanmax :: "real option list \<Rightarrow> real option" where
  "nanmax xs =
     (let vs = List.map_filter id xs in if vs = [] then None else Some (Max (set vs)))"

definition abs_max_exceeds :: "real \<Rightarrow> real option list \<Rightarrow> bool" where
  "abs_max_exceeds threshold col =
     (case nanmax (map (map_option abs) col) of None \<Rightarrow> False | Some m \<Rightarrow> m > threshold)"

text \<open>
  \<^verbatim>\<open>relevant_features = correlation_matrix.columns[correlation_matrix.abs().max() > 0.5]\<close>
\<close>

definition relevant_features_of :: "frame \<Rightarrow> string list" where
  "relevant_features_of correlation_matrix =
     map fst (filter (\<lambda>(name, col). abs_max_exceeds 0.5 col) correlation_matrix)"

text \<open>\<^verbatim>\<open>frame[names]\<close>, for a frame whose column names are distinct.\<close>

fun select_columns :: "frame \<Rightarrow> string list \<Rightarrow> exn + frame" where
  "select_columns df [] = Inr []"
| "select_columns df (n # ns) =
     (case map_of df n of
        None \<Rightarrow> Inl (KeyError n)
      | Some col \<Rightarrow>
          (case select_columns df ns of Inl e \<Rightarrow> Inl e | Inr rest \<Rightarrow> Inr ((n, col) # rest)))"

text \<open>
  The cell; \<open>X_columns\<close> is \<^verbatim>\<open>X.columns\<close>:
  \<^verbatim>\<open>
  correlation_matrix = pd.DataFrame(X_train_scaled, columns=X.columns).corr()
  relevant_features = correlation_matrix.columns[correlation_matrix.abs().max() > 0.5]
  X_train_relevant = pd.DataFrame(X_train_scaled, columns=X.columns)[relevant_features]
  X_test_relevant = pd.DataFrame(X_test_scaled, columns=X.columns)[relevant_features]
  \<close>
\<close>

record selection_vars =
  correlation_matrix :: frame
  relevant_features :: "string list"
  X_train_relevant :: frame
  X_test_relevant :: frame

definition cell_10 ::
  "string list \<Rightarrow> real option list list \<Rightarrow> real option list list \<Rightarrow> exn + selection_vars" where
  "cell_10 X_columns Xtr_scaled Xte_scaled =
     (case DataFrame Xtr_scaled X_columns of
        Inl e \<Rightarrow> Inl e
      | Inr train_frame \<Rightarrow>
        (let cm = corr train_frame;
             rf = relevant_features_of cm
         in case select_columns train_frame rf of
              Inl e \<Rightarrow> Inl e
            | Inr Xtr_relevant \<Rightarrow>
              (case DataFrame Xte_scaled X_columns of
                 Inl e \<Rightarrow> Inl e
               | Inr test_frame \<Rightarrow>
                 (case select_columns test_frame rf of
                    Inl e \<Rightarrow> Inl e
                  | Inr Xte_relevant \<Rightarrow>
                      Inr \<lparr>correlation_matrix = cm, relevant_features = rf,
                           X_train_relevant = Xtr_relevant,
                           X_test_relevant = Xte_relevant\<rparr>))))"

subsection \<open>Cell 13: grid search\<close>

text \<open>
  \<^verbatim>\<open>ParameterGrid(param_grid)\<close> for one dictionary: every list of values must be
  non-empty; the keys are sorted and the combinations come in the order of
  \<^verbatim>\<open>itertools.product\<close>, the last key changing fastest.
\<close>

type_synonym params = "(string \<times> real) list"

definition ParameterGrid :: "(string \<times> real list) list \<Rightarrow> exn + params list" where
  "ParameterGrid param_grid =
     (if \<exists>(k, vs) \<in> set param_grid. vs = []
      then Inl (ValueError ''Parameter grid for a parameter needs to be a non-empty sequence'')
      else
        (let items = sort_key fst param_grid
         in Inr (map (\<lambda>v. zip (map fst items) v) (List.product_lists (map snd items)))))"

text \<open>
  \<^verbatim>\<open>StratifiedKFold(n_splits).split\<close> refuses labels with fewer samples than folds,
  and labels none of whose classes has as many members as there are folds.
\<close>

definition check_cv :: "nat \<Rightarrow> 'y list \<Rightarrow> exn + unit" where
  "check_cv n_splits y =
     (if n_splits > length y
      then Inl (ValueError ''Cannot have number of splits greater than the number of samples'')
      else if \<forall>c \<in> set y. n_splits > count_list y c
      then Inl (ValueError ''n_splits cannot be greater than the number of members in each class'')
      else Inr ())"

text \<open>
  The score of one candidate: \<open>fit_and_score p k\<close> is the test score of the estimator
  with the parameters \<open>p\<close> on fold \<open>k\<close>, NaN (\<open>None\<close>) when fitting failed
  (\<^verbatim>\<open>error_score=np.nan\<close>). The mean over the folds is NaN as soon as one score is.
\<close>

definition mean_test_score :: "(params \<Rightarrow> nat \<Rightarrow> real option) \<Rightarrow> nat \<Rightarrow> params \<Rightarrow> real option" where
  "mean_test_score fit_and_score n_splits p =
     (let scores = map (fit_and_score p) [0..<n_splits]
      in if None \<in> set scores then None
         else Some (sum_list (List.map_filter id scores) / real n_splits))"

text \<open>
  The ranking of the means in \<^verbatim>\<open>_format_results\<close>:
  \<^verbatim>\<open>
  if np.isnan(array_means).all():
      rank_result = np.ones_like(array_means, dtype=np.int32)
  else:
      min_array_means = np.nanmin(array_means) - 1
      array_means = np.nan_to_num(array_means, nan=min_array_means)
      rank_result = rankdata(-array_means, method="min")
  \<close>
  and \<^verbatim>\<open>best_index_ = results["rank_test_score"].argmin()\<close>, the first position of
  the smallest rank.
\<close>

definition rankdata_min :: "real list \<Rightarrow> nat list" where
  "rankdata_min a = map (\<lambda>x. 1 + length (filter (\<lambda>y. y < x) a)) a"

definition rank_test_score :: "real option list \<Rightarrow> nat list" where
  "rank_test_score array_means =
     (let present = List.map_filter id array_means
      in if present = [] then map (\<lambda>_. 1) array_means
         else
           (let min_array_means = Min (set present) - 1;
                filled = map (\<lambda>m. case m of None \<Rightarrow> min_array_means | Some v \<Rightarrow> v) array_means
            in rankdata_min (map uminus filled)))"

definition argmin :: "nat list \<Rightarrow> nat" where
  "argmin xs = length (takeWhile (\<lambda>x. x \<noteq> Min (set xs)) xs)"

text \<open>
  \<^verbatim>\<open>GridSearchCV(estimator, param_grid, cv=n_splits).fit(X, y)\<close>. The estimator and
  the data enter through \<open>fit_and_score\<close> and through \<open>refit\<close>, the fit of the
  estimator with the chosen parameters on the whole training set. A search in which every
  single fit failed is an error.
\<close>

record 'm search_result =
  best_index :: nat
  best_params :: params
  best_score :: "real option"
  best_estimator :: 'm

definition GridSearchCV_fit ::
  "(params \<Rightarrow> nat \<Rightarrow> real option) \<Rightarrow> (params \<Rightarrow> exn + 'm) \<Rightarrow> (string \<times> real list) list \<Rightarrow>
   nat \<Rightarrow> 'y list \<Rightarrow> exn + 'm search_result" where
  "GridSearchCV_fit fit_and_score refit param_grid n_splits y =
     (case ParameterGrid param_grid of
        Inl e \<Rightarrow> Inl e
      | Inr candidate_params \<Rightarrow>
        (case check_cv n_splits y of
           Inl e \<Rightarrow> Inl e
         | Inr _ \<Rightarrow>
           if candidate_params = [] then Inl (ValueError ''No fits were performed'')
           else if \<forall>p \<in> set candidate_params. \<forall>k < n_splits. fit_and_score p k = None
           then Inl (ValueError ''All the fits failed'')
           else
             (let array_means = map (mean_test_score fit_and_score n_splits) candidate_params;
                  best = argmin (rank_test_score array_means)
              in case refit (candidate_params ! best) of
                   Inl e \<Rightarrow> Inl e
                 | Inr model \<Rightarrow>
                     Inr \<lparr>best_index = best, best_params = candidate_params ! best,
                          best_score = array_means ! best, best_estimator = model\<rparr>)))"

text \<open>
  The two searches of the cell:
  \<^verbatim>\<open>
  param_grid_linear = {'C': [0.1, 1, 10, 100]}
  grid_search_linear = GridSearchCV(SVC(kernel='linear'), param_grid_linear, cv=5)
  param_grid_rbf = {'C': [0.1, 1, 10, 100], 'gamma': [1, 0.1, 0.01, 0.001]}
  grid_search_rbf = GridSearchCV(SVC(kernel='rbf'), param_grid_rbf, cv=5)
  \<close>
\<close>

definition param_grid_linear :: "(string \<times> real list) list" where
  "param_grid_linear = [(''C'', [0.1, 1, 10, 100])]"

definition param_grid_rbf :: "(string \<times> real list) list" where
  "param_grid_rbf = [(''C'', [0.1, 1, 10, 100]), (''gamma'', [1, 0.1, 0.01, 0.001])]"

definition grid_search_linear ::
  "(params \<Rightarrow> nat \<Rightarrow> real option) \<Rightarrow> (params \<Rightarrow> exn + 'm) \<Rightarrow> 'y list \<Rightarrow> exn + 'm search_result" where
  "grid_search_linear fit_and_score refit y =
     GridSearchCV_fit fit_and_score refit param_grid_linear 5 y"

definition grid_search_rbf ::
  "(params \<Rightarrow> nat \<Rightarrow> real option) \<Rightarrow> (params \<Rightarrow> exn + 'm) \<Rightarrow> 'y list \<Rightarrow> exn + 'm search_result" where
  "grid_search_rbf fit_and_score refit y =
     GridSearchCV_fit fit_and_score refit param_grid_rbf 5 y"

section \<open>Imputation\<close>

lemma map_of_mean_numeric_only_Num:
  "distinct (map fst df) \<Longrightarrow> (n, NumCol xs) \<in> set df \<Longrightarrow>
   map_of (mean_numeric_only df) n = Some (nanmean xs)"
proof (induction df)
  case Nil
  then show ?case by simp
next
  case (Cons p df)
  obtain m c where p: "p = (m, c)" by (cases p)
  show ?case
  proof (cases "m = n")
    case True
    with Cons.prems p have "c = NumCol xs"
      by (auto simp: rev_image_eqI)
    with True p show ?thesis
      by (simp add: mean_numeric_only_def)
  next
    case False
    with Cons.prems p have "(n, NumCol xs) \<in> set df" "distinct (map fst df)"
      by auto
    with Cons.IH have "map_of (mean_numeric_only df) n = Some (nanmean xs)"
      by simp
    with False p show ?thesis
      by (cases c) (simp_all add: mean_numeric_only_def)
  qed
qed

lemma fst_mean_numeric_only: "fst ` set (mean_numeric_only df) \<subseteq> fst ` set df"
  by (force simp: mean_numeric_only_def List.map_filter_def split: column.splits)

lemma map_of_mean_numeric_only_Obj:
  "distinct (map fst df) \<Longrightarrow> (n, ObjCol ys) \<in> set df \<Longrightarrow>
   map_of (mean_numeric_only df) n = None"
proof (induction df)
  case Nil
  then show ?case by simp
next
  case (Cons p df)
  obtain m c where p: "p = (m, c)" by (cases p)
  show ?case
  proof (cases "m = n")
    case True
    with Cons.prems p have c: "c = ObjCol ys"
      by (auto simp: rev_image_eqI)
    have "n \<notin> fst ` set df"
      using Cons.prems p True by simp
    with fst_mean_numeric_only have "n \<notin> fst ` set (mean_numeric_only df)"
      by blast
    then have "map_of (mean_numeric_only df) n = None"
      by (simp add: map_of_eq_None_iff)
    with True p c show ?thesis
      by (simp add: mean_numeric_only_def)
  next
    case False
    with Cons.prems p have "(n, ObjCol ys) \<in> set df" "distinct (map fst df)"
      by auto
    with Cons.IH have "map_of (mean_numeric_only df) n = None"
      by simp
    with False p show ?thesis
      by (cases c) (simp_all add: mean_numeric_only_def)
  qed
qed

lemma nanmean_present:
  "Some v \<in> set xs \<Longrightarrow>
   nanmean xs = Some (sum_list (List.map_filter id xs) / real (length (List.map_filter id xs)))"
proof -
  assume "Some v \<in> set xs"
  then have "v \<in> set (List.map_filter id xs)"
    by (force simp: List.map_filter_def)
  then have "List.map_filter id xs \<noteq> []"
    by auto
  then show ?thesis
    by (simp add: nanmean_def Let_def)
qed

lemma fill_present_id:
  "None \<notin> set xs \<Longrightarrow> map (\<lambda>x. case x of None \<Rightarrow> Some m | Some v \<Rightarrow> Some v) xs = xs"
proof (rule map_idI)
  fix x
  assume "None \<notin> set xs" and "x \<in> set xs"
  then have "x \<noteq> None"
    by metis
  then show "(case x of None \<Rightarrow> Some m | Some v \<Rightarrow> Some v) = x"
    by (cases x) simp_all
qed

text \<open>
  C8. On a frame whose numeric columns each have a present entry, cell 4 leaves \<open>data\<close>
  as it was and binds \<open>data_cleaned\<close> to a frame with the same columns in which every
  missing entry of a numeric column is the mean of that column's present entries, no
  numeric column has a missing entry left, every object column is the one of the input,
  and every column without a missing entry is the one of the input.
\<close>

theorem impute_column_means:
  assumes "distinct (map fst (data ns))"
    and "\<forall>n xs. (n, NumCol xs) \<in> set (data ns) \<longrightarrow> (\<exists>v. Some v \<in> set xs)"
  shows "data (cell_4 ns) = data ns \<and>
    length (data_cleaned (cell_4 ns)) = length (data ns) \<and>
    (\<forall>i < length (data ns).
      (\<forall>n xs. data ns ! i = (n, NumCol xs) \<longrightarrow>
         (\<exists>zs. data_cleaned (cell_4 ns) ! i = (n, NumCol zs) \<and> None \<notin> set zs \<and>
            zs = map (\<lambda>x. case x of
                   None \<Rightarrow> Some (sum_list (List.map_filter id xs) / real (length (List.map_filter id xs)))
                 | Some v \<Rightarrow> Some v) xs \<and>
            (None \<notin> set xs \<longrightarrow> zs = xs))) \<and>
      (\<forall>n ys. data ns ! i = (n, ObjCol ys) \<longrightarrow> data_cleaned (cell_4 ns) ! i = (n, ObjCol ys)))"
proof (intro conjI allI impI)
  show "data (cell_4 ns) = data ns"
    by (simp add: cell_4_def)
  show "length (data_cleaned (cell_4 ns)) = length (data ns)"
    by (simp add: cell_4_def fillna_def)
next
  fix i n xs
  assume i: "i < length (data ns)" and at: "data ns ! i = (n, NumCol xs)"
  let ?m = "sum_list (List.map_filter id xs) / real (length (List.map_filter id xs))"
  let ?zs = "map (\<lambda>x. case x of None \<Rightarrow> Some ?m | Some v \<Rightarrow> Some v) xs"
  from i at have mem: "(n, NumCol xs) \<in> set (data ns)"
    by (metis nth_mem)
  with assms(2) obtain v where "Some v \<in> set xs"
    by blast
  then have "nanmean xs = Some ?m"
    by (rule nanmean_present)
  with map_of_mean_numeric_only_Num [OF assms(1) mem]
  have look: "map_of (mean_numeric_only (data ns)) n = Some (Some ?m)"
    by simp
  have cleaned: "data_cleaned (cell_4 ns) ! i = (n, NumCol ?zs)"
    using i at look by (simp add: cell_4_def fillna_def)
  have none: "None \<notin> set ?zs"
    by (auto split: option.splits)
  have same: "None \<notin> set xs \<longrightarrow> ?zs = xs"
    by (simp add: fill_present_id)
  show "\<exists>zs. data_cleaned (cell_4 ns) ! i = (n, NumCol zs) \<and> None \<notin> set zs \<and>
            zs = ?zs \<and> (None \<notin> set xs \<longrightarrow> zs = xs)"
    using cleaned none same by blast
next
  fix i n ys
  assume i: "i < length (data ns)" and at: "data ns ! i = (n, ObjCol ys)"
  from i at have mem: "(n, ObjCol ys) \<in> set (data ns)"
    by (metis nth_mem)
  from map_of_mean_numeric_only_Obj [OF assms(1) mem]
  show "data_cleaned (cell_4 ns) ! i = (n, ObjCol ys)"
    using i at by (simp add: cell_4_def fillna_def)
qed

theorem impute_column_means_witness:
  "data (cell_4 \<lparr>data = [(''s1'', NumCol [Some 1, None, Some 3]),
                          (''gas_label'', ObjCol [Some (PyStr ''a''), None, Some (PyStr ''b'')])],
                  data_cleaned = []\<rparr>)
     = [(''s1'', NumCol [Some 1, None, Some 3]),
        (''gas_label'', ObjCol [Some (PyStr ''a''), None, Some (PyStr ''b'')])] \<and>
   data_cleaned (cell_4 \<lparr>data = [(''s1'', NumCol [Some 1, None, Some 3]),
                          (''gas_label'', ObjCol [Some (PyStr ''a''), None, Some (PyStr ''b'')])],
                  data_cleaned = []\<rparr>) ! 0
     = (''s1'', NumCol [Some 1, Some 2, Some 3]) \<and>
   data_cleaned (cell_4 \<lparr>data = [(''s1'', NumCol [Some 1, None, Some 3]),
                          (''gas_label'', ObjCol [Some (PyStr ''a''), None, Some (PyStr ''b'')])],
                  data_cleaned = []\<rparr>) ! 1
     = (''gas_label'', ObjCol [Some (PyStr ''a''), None, Some (PyStr ''b'')])"
proof -
  let ?ns = "\<lparr>data = [(''s1'', NumCol [Some 1, None, Some 3]),
                          (''gas_label'', ObjCol [Some (PyStr ''a''), None, Some (PyStr ''b'')])],
                  data_cleaned = []\<rparr>"
  have h1: "distinct (map fst (data ?ns))"
    by simp
  have h2: "\<forall>n xs. (n, NumCol xs) \<in> set (data ?ns) \<longrightarrow> (\<exists>v. Some v \<in> set xs)"
    by auto
  from impute_column_means [OF h1 h2] have
    a: "data (cell_4 ?ns) = data ?ns" and
    b: "\<forall>i<length (data ?ns).
      (\<forall>n xs. data ?ns ! i = (n, NumCol xs) \<longrightarrow>
         (\<exists>zs. data_cleaned (cell_4 ?ns) ! i = (n, NumCol zs) \<and> None \<notin> set zs \<and>
            zs = map (\<lambda>x. case x of
                   None \<Rightarrow> Some (sum_list (List.map_filter id xs) / real (length (List.map_filter id xs)))
                 | Some v \<Rightarrow> Some v) xs \<and>
            (None \<notin> set xs \<longrightarrow> zs = xs))) \<and>
      (\<forall>n ys. data ?ns ! i = (n, ObjCol ys) \<longrightarrow> data_cleaned (cell_4 ?ns) ! i = (n, ObjCol ys))"
    by blast+
  from b have c0: "data_cleaned (cell_4 ?ns) ! 0 = (''s1'', NumCol [Some 1, Some 2, Some 3])"
    by (simp add: List.map_filter_simps)
  from b have "(\<forall>n ys. data ?ns ! 1 = (n, ObjCol ys) \<longrightarrow> data_cleaned (cell_4 ?ns) ! 1 = (n, ObjCol ys))"
    by simp
  then have c1: "data_cleaned (cell_4 ?ns) ! 1 = (''gas_label'', ObjCol [Some (PyStr ''a''), None, Some (PyStr ''b'')])"
    by simp
  from a c0 c1 show ?thesis
    by simp
qed

section \<open>Balancing\<close>

lemma length_shuffle_loop: "length (shuffle_loop g i xs) = length xs"
  by (induction g i xs rule: shuffle_loop.induct) (simp_all add: Let_def)

lemma mset_shuffle_loop: "i < length xs \<Longrightarrow> mset (shuffle_loop g i xs) = mset xs"
proof (induction g i xs rule: shuffle_loop.induct)
  case (1 g xs)
  then show ?case by simp
next
  case (2 g i xs)
  let ?j = "g 0 mod Suc (Suc i)"
  let ?ys = "xs[Suc i := xs ! ?j, ?j := xs ! Suc i]"
  have j: "?j < length xs"
    using "2.prems" by (meson less_Suc_eq_le less_le_trans mod_less_divisor zero_less_Suc not_less)
  have "mset ?ys = mset xs"
    using "2.prems" j by (simp add: mset_swap)
  moreover have "mset (shuffle_loop (advance 1 g) i ?ys) = mset ?ys"
    using "2.prems" by (intro "2.IH") simp_all
  ultimately show ?case
    by (simp add: Let_def)
qed

lemma mset_permutation: "mset (permutation g xs) = mset xs"
proof (cases xs)
  case Nil
  then show ?thesis by (simp add: permutation_def)
next
  case (Cons x ys)
  then show ?thesis by (simp add: permutation_def mset_shuffle_loop)
qed

lemma length_permutation: "length (permutation g xs) = length xs"
  by (simp add: permutation_def length_shuffle_loop)

lemma mset_sample_frac_1: "mset (sample_frac_1 env rows seed) = mset rows"
proof -
  let ?p = "permutation (check_random_state env seed) [0..<length rows]"
  have "mset (map (\<lambda>i. rows ! i) ?p) = image_mset (\<lambda>i. rows ! i) (mset ?p)"
    by simp
  also have "\<dots> = image_mset (\<lambda>i. rows ! i) (mset [0..<length rows])"
    by (simp only: mset_permutation)
  also have "\<dots> = mset (map (\<lambda>i. rows ! i) [0..<length rows])"
    by simp
  also have "\<dots> = mset rows"
    by (simp add: map_nth)
  finally show ?thesis
    by (simp add: sample_frac_1_def choice_def length_permutation)
qed

text \<open>
  C1, at a frame whose two largest classes have equally many rows. The rows carry the
  labels 1, 1, 2, 2, 3. Label 1 is the majority class; label 2 has the majority count,
  so it is not among \<^verbatim>\<open>minority_classes\<close>, and its rows are not the majority rows
  either: the balanced frame has the two rows of label 1, two draws of label 3 and no row
  of label 2, four rows instead of six.
\<close>

theorem balance_drops_tied_class:
  "\<exists>balanced_data. cell_6 env Some [1::nat, 1, 2, 2, 3] = Inr balanced_data \<and>
     mset balanced_data = {#1, 1, 3, 3#}"
proof -
  have "cell_6 env Some [1::nat, 1, 2, 2, 3] = Inr (sample_frac_1 env [1, 1, 3, 3] (Some 42))"
    by (simp add: cell_6_def value_counts_def idxmax_def series_max_def getitem_def
        resample_def randint_def Let_def)
  moreover have "mset (sample_frac_1 env [1::nat, 1, 3, 3] (Some 42)) = {#1, 1, 3, 3#}"
    by (simp add: mset_sample_frac_1)
  ultimately show ?thesis
    by blast
qed

section \<open>Grid search\<close>

lemma argmin_props:
  assumes "xs \<noteq> []"
  shows "argmin xs < length xs" and "xs ! argmin xs = Min (set xs)"
    and "\<forall>j < argmin xs. xs ! j \<noteq> Min (set xs)"
proof -
  let ?P = "\<lambda>x. x \<noteq> Min (set xs)"
  have "Min (set xs) \<in> set xs"
    using assms by (simp add: Min_in)
  then have "takeWhile ?P xs \<noteq> xs"
    by (metis (mono_tags, lifting) set_takeWhileD)
  then show lt: "argmin xs < length xs"
    unfolding argmin_def
    by (metis length_takeWhile_le le_neq_implies_less takeWhile_eq_take take_all_iff order_refl)
  from nth_length_takeWhile [of ?P xs] lt show "xs ! argmin xs = Min (set xs)"
    by (simp add: argmin_def)
  show "\<forall>j < argmin xs. xs ! j \<noteq> Min (set xs)"
  proof (intro allI impI)
    fix j
    assume j: "j < argmin xs"
    then have "takeWhile ?P xs ! j \<in> set (takeWhile ?P xs)"
      by (simp add: argmin_def)
    moreover have "takeWhile ?P xs ! j = xs ! j"
      using j by (simp add: argmin_def takeWhile_nth)
    ultimately show "xs ! j \<noteq> Min (set xs)"
      by (metis (mono_tags, lifting) set_takeWhileD)
  qed
qed

lemma set_map_filter_id: "set (List.map_filter id xs) = {v. Some v \<in> set xs}"
  by (force simp: List.map_filter_def)

lemma rank_test_score_best:
  assumes ne: "ms \<noteq> []"
  shows "argmin (rank_test_score ms) < length ms \<and>
    (\<forall>j < length ms. \<forall>m. ms ! j = Some m \<longrightarrow>
        (\<exists>b. ms ! argmin (rank_test_score ms) = Some b \<and> m \<le> b)) \<and>
    (\<forall>j < argmin (rank_test_score ms). ms ! j \<noteq> ms ! argmin (rank_test_score ms))"
proof (cases "List.map_filter id ms = []")
  case True
  then have none: "\<And>v. Some v \<notin> set ms"
    using set_map_filter_id [of ms] by auto
  have r: "rank_test_score ms = map (\<lambda>_. 1) ms"
    using True by (simp add: rank_test_score_def)
  have "set (map (\<lambda>_. 1::nat) ms) = {1}"
    using ne by (cases ms) auto
  then have "Min (set (rank_test_score ms)) = 1"
    using r by simp
  moreover have "rank_test_score ms ! 0 = 1"
    using r ne by (cases ms) auto
  moreover have "rank_test_score ms \<noteq> []"
    using r ne by simp
  ultimately have "\<not> 0 < argmin (rank_test_score ms)"
    using argmin_props(3) [of "rank_test_score ms"] by auto
  then have z: "argmin (rank_test_score ms) = 0"
    by simp
  have "\<And>j m. j < length ms \<Longrightarrow> ms ! j \<noteq> Some m"
    using none by (metis nth_mem)
  then show ?thesis
    using ne z by simp
next
  case False
  define present where "present = List.map_filter id ms"
  define lo where "lo = Min (set present) - 1"
  define f where "f = map (\<lambda>m. case m of None \<Rightarrow> lo | Some v \<Rightarrow> v) ms"
  define a where "a = map uminus f"
  define r where "r = rankdata_min a"
  define best where "best = argmin r"
  have rts: "rank_test_score ms = r"
    unfolding r_def a_def f_def lo_def present_def
    using False by (simp add: rank_test_score_def Let_def)
  have len: "length r = length ms" "length a = length ms" "length f = length ms"
    by (simp_all add: r_def rankdata_min_def a_def f_def)
  have rne: "r \<noteq> []"
    using len ne by auto
  have r_nth: "\<And>i. i < length ms \<Longrightarrow> r ! i = 1 + length (filter (\<lambda>y. y < a ! i) a)"
    using len by (simp add: r_def rankdata_min_def)
  have fne: "f \<noteq> []"
    using len ne by auto
  \<comment> \<open>a position holding the largest filled mean has rank one\<close>
  have "Max (set f) \<in> set f"
    using fne by (simp add: Max_in)
  then obtain i0 where i0: "i0 < length ms" "f ! i0 = Max (set f)"
    using len by (metis in_set_conv_nth)
  have "filter (\<lambda>y. y < a ! i0) a = []"
  proof -
    have "\<And>y. y \<in> set a \<Longrightarrow> \<not> y < a ! i0"
    proof -
      fix y assume "y \<in> set a"
      then obtain x where x: "x \<in> set f" "y = - x"
        by (auto simp: a_def)
      then have "x \<le> Max (set f)"
        by simp
      then have "\<not> - x < - Max (set f)"
        by linarith
      moreover have "a ! i0 = - Max (set f)"
        using i0 len by (simp add: a_def)
      ultimately show "\<not> y < a ! i0"
        using x by simp
    qed
    then show ?thesis
      by (simp add: filter_empty_conv)
  qed
  then have "r ! i0 = 1"
    using r_nth i0 by simp
  then have one_in: "1 \<in> set r"
    using i0 len by (metis nth_mem)
  have ge1: "\<And>x. x \<in> set r \<Longrightarrow> 1 \<le> x"
    by (auto simp: r_def rankdata_min_def)
  have minr: "Min (set r) = 1"
    using one_in ge1 by (intro Min_eqI) auto
  have best_lt: "best < length ms"
    using argmin_props(1) [OF rne] len by (simp add: best_def)
  have "r ! best = 1"
    using argmin_props(2) [OF rne] minr by (simp add: best_def)
  then have "filter (\<lambda>y. y < a ! best) a = []"
    using r_nth best_lt by simp
  then have amax: "\<And>j. j < length ms \<Longrightarrow> \<not> a ! j < a ! best"
    using len by (metis filter_empty_conv nth_mem)
  have fmax: "\<And>j. j < length ms \<Longrightarrow> f ! j \<le> f ! best"
  proof -
    fix j assume j: "j < length ms"
    from amax [OF j] show "f ! j \<le> f ! best"
      using j best_lt len by (simp add: a_def)
  qed
  have f_some: "\<And>j v. j < length ms \<Longrightarrow> ms ! j = Some v \<Longrightarrow> f ! j = v"
    by (simp add: f_def)
  have f_none: "\<And>j. j < length ms \<Longrightarrow> ms ! j = None \<Longrightarrow> f ! j = lo"
    by (simp add: f_def)
  \<comment> \<open>the best mean is not NaN\<close>
  have pne: "set present \<noteq> {}"
    using False by (simp add: present_def)
  then have "Min (set present) \<in> set present"
    by (simp add: Min_in)
  then have "Some (Min (set present)) \<in> set ms"
    using set_map_filter_id [of ms] by (simp add: present_def)
  then obtain j0 where j0: "j0 < length ms" "ms ! j0 = Some (Min (set present))"
    by (metis in_set_conv_nth)
  have best_some: "\<exists>b. ms ! best = Some b"
  proof (cases "ms ! best")
    case None
    then have "f ! best = lo"
      using f_none best_lt by simp
    moreover have "f ! j0 = Min (set present)"
      using f_some j0 by simp
    ultimately show ?thesis
      using fmax [OF j0(1)] by (simp add: lo_def)
  next
    case (Some b)
    then show ?thesis by simp
  qed
  have part2: "\<forall>j < length ms. \<forall>m. ms ! j = Some m \<longrightarrow> (\<exists>b. ms ! best = Some b \<and> m \<le> b)"
  proof (intro allI impI)
    fix j m
    assume j: "j < length ms" and m: "ms ! j = Some m"
    from best_some obtain b where b: "ms ! best = Some b"
      by blast
    have "f ! j \<le> f ! best"
      using fmax j by simp
    then have "m \<le> b"
      using f_some [OF j m] f_some [OF best_lt b] by simp
    with b show "\<exists>b. ms ! best = Some b \<and> m \<le> b"
      by simp
  qed
  have part3: "\<forall>j < best. ms ! j \<noteq> ms ! best"
  proof (intro allI impI)
    fix j
    assume j: "j < best"
    then have jl: "j < length ms"
      using best_lt by simp
    have "r ! j \<noteq> 1"
      using argmin_props(3) [OF rne] j minr by (simp add: best_def)
    then have "r ! j \<noteq> r ! best"
      using \<open>r ! best = 1\<close> by simp
    then have "a ! j \<noteq> a ! best"
      using r_nth [OF jl] r_nth [OF best_lt] by auto
    then have "f ! j \<noteq> f ! best"
      using jl best_lt len by (simp add: a_def)
    then show "ms ! j \<noteq> ms ! best"
      using jl best_lt by (auto simp: f_def)
  qed
  show ?thesis
    using best_lt part2 part3 by (simp add: rts best_def)
qed



text \<open>
  The search does return when the grid and the folds are accepted, at least one fit
  succeeded and the final fit succeeds.
\<close>

lemma grid_search_returns:
  assumes "ParameterGrid param_grid = Inr candidate_params"
    and "check_cv n_splits y = Inr ()"
    and "p \<in> set candidate_params" and "k < n_splits" and "fit_and_score p k = Some s"
    and "\<forall>q \<in> set candidate_params. \<exists>model. refit q = Inr model"
  shows "\<exists>res. GridSearchCV_fit fit_and_score refit param_grid n_splits y = Inr res"
proof -
  define ms where "ms = map (mean_test_score fit_and_score n_splits) candidate_params"
  define best where "best = argmin (rank_test_score ms)"
  have ne: "candidate_params \<noteq> []"
    using assms(3) by auto
  then have "ms \<noteq> []" "length ms = length candidate_params"
    by (simp_all add: ms_def)
  with rank_test_score_best [of ms] have "best < length candidate_params"
    by (simp add: best_def)
  then have "candidate_params ! best \<in> set candidate_params"
    by simp
  with assms(6) obtain model where "refit (candidate_params ! best) = Inr model"
    by blast
  moreover have "\<not> (\<forall>p \<in> set candidate_params. \<forall>k < n_splits. fit_and_score p k = None)"
    using assms(3-5) by auto
  ultimately show ?thesis
    using assms(1,2) ne
    by (simp add: GridSearchCV_fit_def Let_def ms_def best_def)
qed


section \<open>The stratified split\<close>

lemma set_permutation: "set (permutation g xs) = set xs"
  using mset_permutation [of g xs] by (rule mset_eq_setD)

lemma distinct_permutation: "distinct (permutation g xs) = distinct xs"
  using mset_permutation [of g xs] by (rule mset_eq_imp_distinct_iff)

lemma choice_props:
  assumes "distinct a" and "k \<le> length a"
  shows "distinct (choice g a k)" and "set (choice g a k) \<subseteq> set a"
    and "length (choice g a k) = k"
proof -
  show "distinct (choice g a k)"
    using assms(1) by (simp add: choice_def distinct_permutation)
  show "set (choice g a k) \<subseteq> set a"
    using set_take_subset [of k "permutation g a"] by (simp add: choice_def set_permutation)
  show "length (choice g a k) = k"
    using assms(2) by (simp add: choice_def length_permutation)
qed

lemma sum_list_increment:
  assumes "distinct ch" and "set ch \<subseteq> {..<length fl}"
  shows "sum_list (map (\<lambda>i. if i \<in> set ch then fl ! i + 1 else fl ! i) [0..<length fl])
         = sum_list fl + length (ch::nat list)"
proof -
  have "sum_list (map (\<lambda>i. if i \<in> set ch then fl ! i + 1 else fl ! i) [0..<length fl])
        = (\<Sum>i = 0..<length fl. fl ! i + (if i \<in> set ch then 1 else 0))"
    by (simp add: interv_sum_list_conv_sum_set_nat if_distrib cong: if_cong)
  also have "\<dots> = (\<Sum>i = 0..<length fl. fl ! i) + (\<Sum>i = 0..<length fl. if i \<in> set ch then 1 else 0)"
    by (simp add: sum.distrib)
  also have "(\<Sum>i = 0..<length fl. fl ! i) = sum_list fl"
    by (simp add: sum_list_sum_nth)
  also have "(\<Sum>i = 0..<length fl. if i \<in> set ch then 1 else 0) = card ({0..<length fl} \<inter> set ch)"
    by (simp add: sum.If_cases)
  also have "{0..<length fl} \<inter> set ch = set ch"
    using assms(2) by auto
  also have "card (set ch) = length ch"
    using assms(1) by (rule distinct_card)
  finally show ?thesis .
qed

lemma length_filter_disjoint:
  assumes "\<And>x. x \<in> set xs \<Longrightarrow> \<not> (P x \<and> Q x)"
  shows "length (filter (\<lambda>x. P x \<or> Q x) xs) = length (filter P xs) + length (filter Q xs)"
  using assms by (induction xs) auto

lemma add_draws_step:
  assumes "length floored = length remainder"
  shows "\<exists>chosen floored'.
    set chosen \<subseteq> set (where_equal remainder v) \<and>
    length chosen = min (length (where_equal remainder v)) need_to_add \<and>
    length floored' = length remainder \<and>
    sum_list floored' = sum_list floored + min (length (where_equal remainder v)) need_to_add \<and>
    (\<forall>i < length remainder.
       floored' ! i = (if i \<in> set chosen then floored ! i + 1 else floored ! i)) \<and>
    add_draws g remainder (v # vs) floored need_to_add =
       (if need_to_add \<le> length (where_equal remainder v)
        then (floored', advance (length (where_equal remainder v) - 1) g)
        else add_draws (advance (length (where_equal remainder v) - 1) g) remainder vs floored'
               (need_to_add - length (where_equal remainder v)))"
proof -
  define inds where "inds = where_equal remainder v"
  define add_now where "add_now = min (length inds) need_to_add"
  define chosen where "chosen = choice g inds add_now"
  define floored' where "floored' = map (\<lambda>i. if i \<in> set chosen then floored ! i + 1 else floored ! i)
                          [0..<length floored]"
  have d: "distinct inds"
    by (simp add: inds_def where_equal_def)
  have le: "add_now \<le> length inds"
    by (simp add: add_now_def)
  have ch: "distinct chosen" "set chosen \<subseteq> set inds" "length chosen = add_now"
    using choice_props [OF d le] by (simp_all add: chosen_def)
  have eq: "add_draws g remainder (v # vs) floored need_to_add =
         (if need_to_add \<le> length inds then (floored', advance (length inds - 1) g)
          else add_draws (advance (length inds - 1) g) remainder vs floored'
                 (need_to_add - length inds))"
    by (auto simp: Let_def inds_def add_now_def chosen_def floored'_def min_def)
  have l: "length floored' = length remainder"
    using assms(1) by (simp add: floored'_def)
  have "set chosen \<subseteq> {..<length floored}"
    using ch(2) assms(1) by (auto simp: inds_def where_equal_def)
  with ch(1) have "sum_list floored' = sum_list floored + length chosen"
    unfolding floored'_def by (rule sum_list_increment)
  then have s: "sum_list floored' = sum_list floored + min (length inds) need_to_add"
    using ch(3) by (simp add: add_now_def)
  have n: "\<forall>i < length remainder.
           floored' ! i = (if i \<in> set chosen then floored ! i + 1 else floored ! i)"
    using assms(1) by (simp add: floored'_def)
  have lc: "length chosen = min (length inds) need_to_add"
    using ch(3) by (simp add: add_now_def)
  show ?thesis
    using ch(2) lc l s n eq unfolding inds_def by blast
qed

lemma add_draws_length:
  "length floored = length remainder \<Longrightarrow>
   length (fst (add_draws g remainder vs floored need_to_add)) = length remainder"
proof (induction vs arbitrary: g floored need_to_add)
  case Nil
  then show ?case by simp
next
  case (Cons v vs)
  from add_draws_step [OF Cons.prems, of v need_to_add g vs]
  obtain chosen floored' where
    l: "length floored' = length remainder" and
    eq: "add_draws g remainder (v # vs) floored need_to_add =
       (if need_to_add \<le> length (where_equal remainder v)
        then (floored', advance (length (where_equal remainder v) - 1) g)
        else add_draws (advance (length (where_equal remainder v) - 1) g) remainder vs floored'
               (need_to_add - length (where_equal remainder v)))"
    by blast
  show ?case
    unfolding eq using l Cons.IH [OF l] by simp
qed

declare add_draws.simps [simp del]

lemma add_draws_Nil: "add_draws g remainder [] floored need_to_add = (floored, g)"
  by (simp add: add_draws.simps)

lemma add_draws_bounds:
  assumes "length floored = length remainder" and "distinct vs"
  shows "\<forall>i < length remainder.
      floored ! i \<le> fst (add_draws g remainder vs floored need_to_add) ! i \<and>
      fst (add_draws g remainder vs floored need_to_add) ! i \<le> floored ! i + 1 \<and>
      (remainder ! i \<notin> set vs \<longrightarrow>
         fst (add_draws g remainder vs floored need_to_add) ! i = floored ! i)"
  using assms
proof (induction vs arbitrary: g floored need_to_add)
  case Nil
  then show ?case by (simp add: add_draws_Nil)
next
  case (Cons v vs)
  from add_draws_step [OF Cons.prems(1), of v need_to_add g vs]
  obtain chosen floored' where
    ch: "set chosen \<subseteq> set (where_equal remainder v)" and
    l: "length floored' = length remainder" and
    n: "\<forall>i < length remainder.
       floored' ! i = (if i \<in> set chosen then floored ! i + 1 else floored ! i)" and
    eq: "add_draws g remainder (v # vs) floored need_to_add =
       (if need_to_add \<le> length (where_equal remainder v)
        then (floored', advance (length (where_equal remainder v) - 1) g)
        else add_draws (advance (length (where_equal remainder v) - 1) g) remainder vs floored'
               (need_to_add - length (where_equal remainder v)))"
    by blast
  have chv: "\<And>i. i \<in> set chosen \<Longrightarrow> remainder ! i = v"
    using ch by (auto simp: where_equal_def)
  from Cons.prems(2) have dv: "v \<notin> set vs" "distinct vs"
    by simp_all
  show ?case
  proof (cases "need_to_add \<le> length (where_equal remainder v)")
    case True
    then have r: "fst (add_draws g remainder (v # vs) floored need_to_add) = floored'"
      by (simp add: eq)
    show ?thesis
      unfolding r using n chv by auto
  next
    case False
    let ?g = "advance (length (where_equal remainder v) - 1) g"
    let ?need = "need_to_add - length (where_equal remainder v)"
    from False have r: "add_draws g remainder (v # vs) floored need_to_add
        = add_draws ?g remainder vs floored' ?need"
      by (simp add: eq)
    note IH = Cons.IH [OF l dv(2), of ?g ?need]
    show ?thesis
      unfolding r
    proof (intro allI impI)
      fix i
      assume i: "i < length remainder"
      from IH i have
        a: "floored' ! i \<le> fst (add_draws ?g remainder vs floored' ?need) ! i" and
        b: "fst (add_draws ?g remainder vs floored' ?need) ! i \<le> floored' ! i + 1" and
        c: "remainder ! i \<notin> set vs \<longrightarrow>
              fst (add_draws ?g remainder vs floored' ?need) ! i = floored' ! i"
        by blast+
      show "floored ! i \<le> fst (add_draws ?g remainder vs floored' ?need) ! i \<and>
        fst (add_draws ?g remainder vs floored' ?need) ! i \<le> floored ! i + 1 \<and>
        (remainder ! i \<notin> set (v # vs) \<longrightarrow>
           fst (add_draws ?g remainder vs floored' ?need) ! i = floored ! i)"
      proof (cases "i \<in> set chosen")
        case True
        then have "remainder ! i \<notin> set vs"
          using chv dv(1) by simp
        with c have "fst (add_draws ?g remainder vs floored' ?need) ! i = floored' ! i"
          by simp
        moreover have "floored' ! i = floored ! i + 1"
          using n i True by simp
        moreover have "remainder ! i = v"
          using chv True by simp
        ultimately show ?thesis
          by simp
      next
        case False
        then have "floored' ! i = floored ! i"
          using n i by simp
        with a b c show ?thesis
          by simp
      qed
    qed
  qed
qed

lemma add_draws_sum:
  assumes "length floored = length remainder" and "distinct vs"
  shows "sum_list (fst (add_draws g remainder vs floored need_to_add)) =
         sum_list floored +
           min need_to_add (length (filter (\<lambda>i. remainder ! i \<in> set vs) [0..<length remainder]))"
  using assms
proof (induction vs arbitrary: g floored need_to_add)
  case Nil
  then show ?case by (simp add: add_draws_Nil)
next
  case (Cons v vs)
  from add_draws_step [OF Cons.prems(1), of v need_to_add g vs]
  obtain chosen floored' where
    l: "length floored' = length remainder" and
    s: "sum_list floored' = sum_list floored + min (length (where_equal remainder v)) need_to_add" and
    eq: "add_draws g remainder (v # vs) floored need_to_add =
       (if need_to_add \<le> length (where_equal remainder v)
        then (floored', advance (length (where_equal remainder v) - 1) g)
        else add_draws (advance (length (where_equal remainder v) - 1) g) remainder vs floored'
               (need_to_add - length (where_equal remainder v)))"
    by blast
  from Cons.prems(2) have dv: "v \<notin> set vs" "distinct vs"
    by simp_all
  have "length (filter (\<lambda>i. remainder ! i = v \<or> remainder ! i \<in> set vs) [0..<length remainder])
        = length (filter (\<lambda>i. remainder ! i = v) [0..<length remainder])
          + length (filter (\<lambda>i. remainder ! i \<in> set vs) [0..<length remainder])"
    using dv(1) by (intro length_filter_disjoint) auto
  then have cnt: "length (filter (\<lambda>i. remainder ! i \<in> set (v # vs)) [0..<length remainder])
        = length (where_equal remainder v)
          + length (filter (\<lambda>i. remainder ! i \<in> set vs) [0..<length remainder])"
    by (simp add: where_equal_def)
  show ?case
  proof (cases "need_to_add \<le> length (where_equal remainder v)")
    case True
    then show ?thesis
      unfolding cnt by (simp add: eq s min_def)
  next
    case False
    let ?g = "advance (length (where_equal remainder v) - 1) g"
    let ?need = "need_to_add - length (where_equal remainder v)"
    let ?rest = "length (filter (\<lambda>i. remainder ! i \<in> set vs) [0..<length remainder])"
    have "sum_list (fst (add_draws g remainder (v # vs) floored need_to_add))
          = sum_list (fst (add_draws ?g remainder vs floored' ?need))"
      unfolding eq using False by simp
    also have "\<dots> = sum_list floored' + min ?need ?rest"
      by (rule Cons.IH [OF l dv(2)])
    also have "\<dots> = sum_list floored + min need_to_add (length (where_equal remainder v) + ?rest)"
      using False s by (auto simp: min_def)
    finally show ?thesis
      unfolding cnt .
  qed
qed

lemma add_draws_zero_remainder:
  assumes "length floored = length remainder" and "sorted_wrt (>) vs"
    and "\<forall>i < length remainder. 0 \<le> remainder ! i"
    and "need_to_add \<le> length (filter (\<lambda>i. remainder ! i \<in> set vs \<and> 0 < remainder ! i)
                                  [0..<length remainder])"
  shows "\<forall>i < length remainder. remainder ! i = 0 \<longrightarrow>
           fst (add_draws g remainder vs floored need_to_add) ! i = floored ! i"
  using assms(1,2,4)
proof (induction vs arbitrary: g floored need_to_add)
  case Nil
  then show ?case by (simp add: add_draws_Nil)
next
  case (Cons v vs)
  from add_draws_step [OF Cons.prems(1), of v need_to_add g vs]
  obtain chosen floored' where
    ch: "set chosen \<subseteq> set (where_equal remainder v)" and
    lc: "length chosen = min (length (where_equal remainder v)) need_to_add" and
    l: "length floored' = length remainder" and
    n: "\<forall>i < length remainder.
       floored' ! i = (if i \<in> set chosen then floored ! i + 1 else floored ! i)" and
    eq: "add_draws g remainder (v # vs) floored need_to_add =
       (if need_to_add \<le> length (where_equal remainder v)
        then (floored', advance (length (where_equal remainder v) - 1) g)
        else add_draws (advance (length (where_equal remainder v) - 1) g) remainder vs floored'
               (need_to_add - length (where_equal remainder v)))"
    by blast
  have chv: "\<And>i. i \<in> set chosen \<Longrightarrow> remainder ! i = v"
    using ch by (auto simp: where_equal_def)
  from Cons.prems(2) have sv: "\<forall>w \<in> set vs. w < v" "sorted_wrt (>) vs"
    by auto
  show ?case
  proof (cases "0 < v")
    case False
    have "filter (\<lambda>i. remainder ! i \<in> set (v # vs) \<and> 0 < remainder ! i) [0..<length remainder] = []"
      using False sv(1) by (auto simp: filter_empty_conv)
    with Cons.prems(3) have need0: "need_to_add = 0"
      by simp
    then have r: "fst (add_draws g remainder (v # vs) floored need_to_add) = floored'"
      unfolding eq by simp
    have "chosen = []"
      using lc need0 by simp
    then have "\<forall>i < length remainder. floored' ! i = floored ! i"
      using n by simp
    then show ?thesis
      unfolding r by simp
  next
    case True
    have pos: "\<And>i. i < length remainder \<Longrightarrow> remainder ! i = 0 \<Longrightarrow> floored' ! i = floored ! i"
      using n chv True by auto
    show ?thesis
    proof (cases "need_to_add \<le> length (where_equal remainder v)")
      case le: True
      then show ?thesis
        using pos by (simp add: eq)
    next
      case gt: False
      let ?g = "advance (length (where_equal remainder v) - 1) g"
      let ?need = "need_to_add - length (where_equal remainder v)"
      have "length (filter (\<lambda>i. (remainder ! i = v \<and> 0 < remainder ! i) \<or>
                 (remainder ! i \<in> set vs \<and> 0 < remainder ! i)) [0..<length remainder])
        = length (filter (\<lambda>i. remainder ! i = v \<and> 0 < remainder ! i) [0..<length remainder])
          + length (filter (\<lambda>i. remainder ! i \<in> set vs \<and> 0 < remainder ! i) [0..<length remainder])"
        using sv(1) by (intro length_filter_disjoint) auto
      moreover have "filter (\<lambda>i. remainder ! i \<in> set (v # vs) \<and> 0 < remainder ! i) [0..<length remainder]
          = filter (\<lambda>i. (remainder ! i = v \<and> 0 < remainder ! i) \<or>
                 (remainder ! i \<in> set vs \<and> 0 < remainder ! i)) [0..<length remainder]"
        by (rule filter_cong) auto
      moreover have "filter (\<lambda>i. remainder ! i = v \<and> 0 < remainder ! i) [0..<length remainder]
          = where_equal remainder v"
        unfolding where_equal_def using True by (intro filter_cong) auto
      ultimately have "?need \<le> length (filter (\<lambda>i. remainder ! i \<in> set vs \<and> 0 < remainder ! i)
                                  [0..<length remainder])"
        using Cons.prems(3) by simp
      from Cons.IH [OF l sv(2) this, of ?g] pos gt show ?thesis
        by (simp add: eq)
    qed
  qed
qed

lemma sum_list_le_count_positive:
  fixes xs :: "real list"
  assumes "\<forall>x \<in> set xs. x < 1"
  shows "sum_list xs \<le> real (length (filter (\<lambda>x. 0 < x) xs))"
  using assms
proof (induction xs)
  case Nil
  then show ?case by simp
next
  case (Cons x xs)
  then have "sum_list xs \<le> real (length (filter (\<lambda>x. 0 < x) xs))" and "x < 1"
    by simp_all
  then show ?case
    by (cases "0 < x") simp_all
qed

lemma length_filter_nth:
  "length (filter (\<lambda>i. P (xs ! i)) [0..<length xs]) = length (filter P xs)"
proof -
  have "filter P xs = filter P (map (\<lambda>i. xs ! i) [0..<length xs])"
    by (simp add: map_nth)
  also have "\<dots> = map (\<lambda>i. xs ! i) (filter (\<lambda>i. P (xs ! i)) [0..<length xs])"
    by (simp add: filter_map comp_def)
  finally show ?thesis
    by simp
qed

lemma sum_list_quotients:
  "sum_list (map (\<lambda>c. real c / t * m) cs) = real (sum_list cs) / t * m"
  by (induction cs) (simp_all add: add_divide_distrib distrib_right)

lemma approximate_mode_props:
  assumes T: "0 < sum_list class_counts" and n: "n_draws \<le> sum_list class_counts"
  shows "\<exists>r g'. approximate_mode g class_counts n_draws = Inr (r, g') \<and>
    length r = length class_counts \<and> sum_list r = n_draws \<and>
    (\<forall>i < length class_counts.
       r ! i \<le> class_counts ! i \<and>
       \<bar>real (r ! i) - real (class_counts ! i) / real (sum_list class_counts) * real n_draws\<bar> < 1)"
proof -
  define K where "K = length class_counts"
  define continuous where
    "continuous = map (\<lambda>c. real c / real (sum_list class_counts) * real n_draws) class_counts"
  define floored where "floored = map (\<lambda>x. nat \<lfloor>x\<rfloor>) continuous"
  define need where "need = n_draws - sum_list floored"
  define remainder where "remainder = map (\<lambda>x. x - of_int \<lfloor>x\<rfloor>) continuous"
  define vals where "vals = rev (sort (remdups remainder))"
  have len: "length continuous = K" "length floored = K" "length remainder = K"
    by (simp_all add: continuous_def floored_def remainder_def K_def)
  have cont_nth: "\<And>i. i < K \<Longrightarrow>
      continuous ! i = real (class_counts ! i) / real (sum_list class_counts) * real n_draws"
    by (simp add: continuous_def K_def)
  have cont_nonneg: "\<And>i. i < K \<Longrightarrow> 0 \<le> continuous ! i"
    by (simp add: cont_nth)
  have fl_nth: "\<And>i. i < K \<Longrightarrow> real (floored ! i) = of_int \<lfloor>continuous ! i\<rfloor>"
    using cont_nonneg len by (simp add: floored_def)
  have rem_nth: "\<And>i. i < K \<Longrightarrow> remainder ! i = continuous ! i - real (floored ! i)"
    using len by (simp add: remainder_def fl_nth)
  have rem_range: "\<And>i. i < K \<Longrightarrow> 0 \<le> remainder ! i \<and> remainder ! i < 1"
  proof -
    fix i assume i: "i < K"
    have "remainder ! i = continuous ! i - of_int \<lfloor>continuous ! i\<rfloor>"
      using i len by (simp add: remainder_def)
    then show "0 \<le> remainder ! i \<and> remainder ! i < 1"
      by linarith
  qed
  \<comment> \<open>the quotients sum to the number of draws\<close>
  have "real (sum_list class_counts) \<noteq> 0"
    using T by linarith
  then have one: "real (sum_list class_counts) / real (sum_list class_counts) = 1"
    by (rule divide_self)
  have sum_cont: "sum_list continuous = real n_draws"
    unfolding continuous_def sum_list_quotients one by simp
  have sum_rem: "sum_list remainder = sum_list continuous - real (sum_list floored)"
  proof -
    have "remainder = map (\<lambda>i. continuous ! i - real (floored ! i)) [0..<K]"
      using len rem_nth by (intro nth_equalityI) simp_all
    then have "sum_list remainder = (\<Sum>i = 0..<K. continuous ! i - real (floored ! i))"
      by (simp add: interv_sum_list_conv_sum_set_nat)
    also have "\<dots> = (\<Sum>i = 0..<K. continuous ! i) - (\<Sum>i = 0..<K. real (floored ! i))"
      by (simp add: sum_subtractf)
    also have "(\<Sum>i = 0..<K. continuous ! i) = sum_list continuous"
      using len by (simp add: sum_list_sum_nth)
    also have "(\<Sum>i = 0..<K. real (floored ! i)) = real (sum_list floored)"
      using len by (simp add: sum_list_sum_nth)
    finally show ?thesis .
  qed
  have rem_nonneg: "0 \<le> sum_list remainder"
    using rem_range len by (intro sum_list_nonneg) (metis in_set_conv_nth)
  have fl_le: "sum_list floored \<le> n_draws"
    using sum_rem rem_nonneg sum_cont by simp
  have need_real: "real need = sum_list remainder"
    using fl_le sum_rem sum_cont by (simp add: need_def)
  have lt1: "\<forall>x \<in> set remainder. x < 1"
    using rem_range len by (metis in_set_conv_nth)
  have need_pos: "need \<le> length (filter (\<lambda>i. 0 < remainder ! i) [0..<length remainder])"
    using sum_list_le_count_positive [OF lt1] need_real
    by (simp add: length_filter_nth [of "\<lambda>x. 0 < x" remainder])
  have small: "\<And>i. i < K \<Longrightarrow> real (floored ! i) \<le> continuous ! i \<and>
      continuous ! i < real (floored ! i) + 1"
  proof -
    fix i assume i: "i < K"
    show "real (floored ! i) \<le> continuous ! i \<and> continuous ! i < real (floored ! i) + 1"
      unfolding fl_nth [OF i] by linarith
  qed
  have cont_le: "\<And>i. i < K \<Longrightarrow> continuous ! i \<le> real (class_counts ! i)"
  proof -
    fix i assume i: "i < K"
    have "real n_draws / real (sum_list class_counts) \<le> 1"
      using T n by simp
    then have "real (class_counts ! i) * (real n_draws / real (sum_list class_counts))
               \<le> real (class_counts ! i) * 1"
      by (intro mult_left_mono) simp_all
    then show "continuous ! i \<le> real (class_counts ! i)"
      by (simp add: cont_nth [OF i])
  qed
  have "sum_list class_counts \<noteq> 0"
    using T by linarith
  then have guard: "(class_counts \<noteq> [] \<and> sum_list class_counts = 0) = False"
    by blast
  have am_unfold: "approximate_mode g class_counts n_draws =
      (if 0 < need then Inr (add_draws g remainder vals floored need) else Inr (floored, g))"
    unfolding approximate_mode_def guard if_False Let_def need_def floored_def continuous_def
      remainder_def vals_def
    by (rule refl)
  \<comment> \<open>what is enough to know of the result\<close>
  have final: "\<exists>r g'. approximate_mode g class_counts n_draws = Inr (r, g') \<and> length r = K \<and>
      sum_list r = n_draws \<and>
      (\<forall>i < K. floored ! i \<le> r ! i \<and> r ! i \<le> floored ! i + 1 \<and>
                (remainder ! i = 0 \<longrightarrow> r ! i = floored ! i))"
  proof (cases "0 < need")
    case False
    then have "approximate_mode g class_counts n_draws = Inr (floored, g)"
      by (simp add: am_unfold)
    moreover have "sum_list floored = n_draws"
      using False fl_le by (simp add: need_def)
    ultimately show ?thesis
      using len by auto
  next
    case True
    let ?res = "add_draws g remainder vals floored need"
    have am: "approximate_mode g class_counts n_draws = Inr ?res"
      using True by (simp add: am_unfold)
    have lf: "length floored = length remainder"
      using len by simp
    have dv: "distinct vals"
      by (simp add: vals_def)
    have sv: "sorted_wrt (>) vals"
    proof -
      have "sorted_wrt (<) (sort (remdups remainder))"
        by (simp add: strict_sorted_iff)
      then have "sorted_wrt (\<lambda>x y. y < x) (rev (sort (remdups remainder)))"
        by (simp add: sorted_wrt_rev)
      then show ?thesis
        by (simp add: vals_def)
    qed
    have setv: "set vals = set remainder"
      by (simp add: vals_def)
    have all_in: "filter (\<lambda>i. remainder ! i \<in> set vals) [0..<length remainder] = [0..<length remainder]"
      using setv by (simp add: filter_id_conv)
    have pos_in: "filter (\<lambda>i. remainder ! i \<in> set vals \<and> 0 < remainder ! i) [0..<length remainder]
        = filter (\<lambda>i. 0 < remainder ! i) [0..<length remainder]"
      using setv by (intro filter_cong) auto
    have need_K: "need \<le> K"
      using need_pos length_filter_le [of "\<lambda>i. 0 < remainder ! i" "[0..<length remainder]"] len
      by simp
    have "length (filter (\<lambda>i. remainder ! i \<in> set vals) [0..<length remainder]) = K"
      unfolding all_in using len by simp
    then have "sum_list (fst ?res) = sum_list floored + min need K"
      using add_draws_sum [OF lf dv, of g need] by simp
    then have s: "sum_list (fst ?res) = n_draws"
      using need_K fl_le by (simp add: need_def)
    have np: "need \<le> length (filter (\<lambda>i. remainder ! i \<in> set vals \<and> 0 < remainder ! i)
                             [0..<length remainder])"
      unfolding pos_in by (rule need_pos)
    have nn: "\<forall>i < length remainder. 0 \<le> remainder ! i"
      using rem_range len by simp
    have z: "\<forall>i < length remainder. remainder ! i = 0 \<longrightarrow> fst ?res ! i = floored ! i"
      by (rule add_draws_zero_remainder [OF lf sv nn np])
    have b: "\<forall>i < length remainder. floored ! i \<le> fst ?res ! i \<and> fst ?res ! i \<le> floored ! i + 1"
      using add_draws_bounds [OF lf dv, of g need] by blast
    have l: "length (fst ?res) = K"
      using add_draws_length [OF lf] len by simp
    show ?thesis
      using am s z b l len by (intro exI [of _ "fst ?res"] exI [of _ "snd ?res"]) simp
  qed
  then obtain r g' where r: "approximate_mode g class_counts n_draws = Inr (r, g')"
      "length r = K" "sum_list r = n_draws"
      "\<forall>i < K. floored ! i \<le> r ! i \<and> r ! i \<le> floored ! i + 1 \<and>
                (remainder ! i = 0 \<longrightarrow> r ! i = floored ! i)"
    by blast
  have "\<forall>i < K. r ! i \<le> class_counts ! i \<and> \<bar>real (r ! i) - continuous ! i\<bar> < 1"
  proof (intro allI impI)
    fix i assume i: "i < K"
    from r(4) i have lo: "floored ! i \<le> r ! i" and hi: "r ! i \<le> floored ! i + 1"
      and z: "remainder ! i = 0 \<longrightarrow> r ! i = floored ! i"
      by blast+
    show "r ! i \<le> class_counts ! i \<and> \<bar>real (r ! i) - continuous ! i\<bar> < 1"
    proof (cases "r ! i = floored ! i")
      case True
      have "real (floored ! i) \<le> real (class_counts ! i)"
        using small [OF i] cont_le [OF i] by linarith
      then show ?thesis
        using True small [OF i] by simp
    next
      case False
      then have ri: "r ! i = floored ! i + 1"
        using lo hi by simp
      from False z have "remainder ! i \<noteq> 0"
        by blast
      then have gt: "real (floored ! i) < continuous ! i"
        using rem_nth [OF i] rem_range [OF i] by linarith
      then have "real (floored ! i) < real (class_counts ! i)"
        using cont_le [OF i] by linarith
      then have "floored ! i + 1 \<le> class_counts ! i"
        by simp
      then show ?thesis
        using ri gt small [OF i] by simp
    qed
  qed
  then show ?thesis
    using r(1-3) cont_nth by (auto simp: K_def)
qed

lemma pointwise_le_sum_eq:
  fixes xs ys :: "nat list"
  assumes "length xs = length ys" and "\<forall>i < length xs. xs ! i \<le> ys ! i"
    and "sum_list xs = sum_list ys"
  shows "xs = ys"
  using assms
proof (induction xs ys rule: list_induct2)
  case Nil
  then show ?case by simp
next
  case (Cons x xs y ys)
  from Cons.prems(1) have h: "x \<le> y" and t: "\<forall>i < length xs. xs ! i \<le> ys ! i"
    by auto
  from t Cons.hyps have "sum_list xs \<le> sum_list ys"
    by (intro sum_list_mono2) simp_all
  with h Cons.prems(2) have "x = y" and "sum_list xs = sum_list ys"
    by simp_all
  with Cons.IH [OF t] show ?case
    by simp
qed

lemma approximate_mode_all:
  assumes "0 < sum_list class_counts"
  shows "\<exists>g'. approximate_mode g class_counts (sum_list class_counts) = Inr (class_counts, g')"
proof -
  from approximate_mode_props [OF assms order_refl, of g]
  obtain r g' where r: "approximate_mode g class_counts (sum_list class_counts) = Inr (r, g')"
    "length r = length class_counts" "sum_list r = sum_list class_counts"
    "\<forall>i < length class_counts. r ! i \<le> class_counts ! i"
    by blast
  then have "r = class_counts"
    by (intro pointwise_le_sum_eq) simp_all
  with r(1) show ?thesis
    by blast
qed

lemma length_class_indices: "length (class_indices y c) = count_list y c"
proof -
  have "length (class_indices y c) = length (filter (\<lambda>v. v = c) y)"
    unfolding class_indices_def by (rule length_filter_nth)
  also have "\<dots> = count_list y c"
    by (induction y) simp_all
  finally show ?thesis .
qed

lemma class_indices_label: "i \<in> set (class_indices y c) \<Longrightarrow> y ! i = c"
  by (simp add: class_indices_def)

lemma extend_classes_props:
  assumes "\<forall>(c, n, t) \<in> set cls. n + t = length (class_indices y c)"
  shows "case extend_classes g y cls train test of (train', test', g') \<Rightarrow>
     mset train' + mset test' =
       mset train + mset test + sum_list (map (\<lambda>(c, n, t). mset (class_indices y c)) cls) \<and>
     mset (map (\<lambda>i. y ! i) train') =
       mset (map (\<lambda>i. y ! i) train) + sum_list (map (\<lambda>(c, n, t). replicate_mset n c) cls) \<and>
     mset (map (\<lambda>i. y ! i) test') =
       mset (map (\<lambda>i. y ! i) test) + sum_list (map (\<lambda>(c, n, t). replicate_mset t c) cls)"
  using assms
proof (induction cls arbitrary: g train test)
  case Nil
  then show ?case by simp
next
  case (Cons x cls)
  obtain c n t where x: "x = (c, n, t)"
    by (cases x)
  define idx where "idx = class_indices y c"
  define p where "p = map (\<lambda>k. idx ! k) (permutation g [0..<length idx])"
  from Cons.prems x have nt: "n + t = length idx" and
    rest: "\<forall>(c, n, t) \<in> set cls. n + t = length (class_indices y c)"
    by (simp_all add: idx_def)
  have "mset p = image_mset (\<lambda>k. idx ! k) (mset (permutation g [0..<length idx]))"
    by (simp add: p_def)
  also have "\<dots> = image_mset (\<lambda>k. idx ! k) (mset [0..<length idx])"
    by (simp only: mset_permutation)
  also have "\<dots> = mset (map (\<lambda>k. idx ! k) [0..<length idx])"
    by simp
  finally have mp: "mset p = mset idx"
    by (simp add: map_nth)
  then have lp: "length p = n + t"
    using nt by (metis size_mset)
  have split: "mset (take n p) + mset (take t (drop n p)) = mset idx"
  proof -
    have e: "take t (drop n p) = drop n p"
      using lp by simp
    have "mset (take n p) + mset (take t (drop n p)) = mset (take n p) + mset (drop n p)"
      by (simp only: e)
    also have "\<dots> = mset (take n p @ drop n p)"
      by (simp only: mset_append)
    also have "\<dots> = mset p"
      by (simp only: append_take_drop_id)
    finally show ?thesis
      using mp by simp
  qed
  have lab: "\<And>i. i \<in> set p \<Longrightarrow> y ! i = c"
    using mp class_indices_label [of _ y c] by (metis idx_def mset_eq_setD)
  have tr: "map (\<lambda>i. y ! i) (take n p) = replicate n c"
  proof -
    have "\<forall>v \<in> set (map (\<lambda>i. y ! i) (take n p)). v = c"
      using lab by (auto dest: in_set_takeD)
    moreover have "length (map (\<lambda>i. y ! i) (take n p)) = n"
      using lp by simp
    ultimately show ?thesis
      by (metis replicate_length_same)
  qed
  have te: "map (\<lambda>i. y ! i) (take t (drop n p)) = replicate t c"
  proof -
    have "\<forall>v \<in> set (map (\<lambda>i. y ! i) (take t (drop n p))). v = c"
      using lab by (auto dest!: in_set_takeD in_set_dropD)
    moreover have "length (map (\<lambda>i. y ! i) (take t (drop n p))) = t"
      using lp by simp
    ultimately show ?thesis
      by (metis replicate_length_same)
  qed
  let ?g = "advance (length idx - 1) g"
  have unfold: "extend_classes g y (x # cls) train test =
      extend_classes ?g y cls (train @ take n p) (test @ take t (drop n p))"
    by (simp add: x Let_def idx_def p_def)
  from Cons.IH [OF rest, where g = ?g and train = "train @ take n p"
      and test = "test @ take t (drop n p)"]
  show ?case
    unfolding unfold using split tr te
    by (auto simp: x idx_def ac_simps split: prod.splits)
qed

lemma sum_list_class_counts:
  assumes "distinct classes" and "set classes = set y"
  shows "sum_list (map (count_list y) classes) = length y"
proof -
  have "sum_list (map (count_list y) classes) = sum (count_list y) (set classes)"
    using assms(1) by (rule sum_list_distinct_conv_sum_set)
  also have "\<dots> = length y"
    using assms(2) by (intro sum_count_set) simp_all
  finally show ?thesis .
qed

lemma sum_list_filter_mset_classes:
  assumes "distinct cs"
  shows "sum_list (map (\<lambda>c. filter_mset (\<lambda>x. f x = c) M) cs) = filter_mset (\<lambda>x. f x \<in> set cs) M"
  using assms
proof (induction cs)
  case Nil
  then show ?case by simp
next
  case (Cons c cs)
  then have "sum_list (map (\<lambda>c. filter_mset (\<lambda>x. f x = c) M) cs)
             = filter_mset (\<lambda>x. f x \<in> set cs) M" and c: "c \<notin> set cs"
    by simp_all
  then have "sum_list (map (\<lambda>c. filter_mset (\<lambda>x. f x = c) M) (c # cs))
      = filter_mset (\<lambda>x. f x = c) M + filter_mset (\<lambda>x. f x \<in> set cs) M"
    by simp
  also have "\<dots> = filter_mset (\<lambda>x. f x \<in> set (c # cs)) M"
    using c by (intro multiset_eqI) auto
  finally show ?case .
qed

lemma class_indices_partition:
  assumes "distinct classes" and "set classes = set y"
  shows "sum_list (map (\<lambda>c. mset (class_indices y c)) classes) = mset [0..<length y]"
proof -
  have "sum_list (map (\<lambda>c. mset (class_indices y c)) classes)
        = sum_list (map (\<lambda>c. filter_mset (\<lambda>i. y ! i = c) (mset [0..<length y])) classes)"
    by (simp add: class_indices_def)
  also have "\<dots> = filter_mset (\<lambda>i. y ! i \<in> set classes) (mset [0..<length y])"
    using assms(1) by (rule sum_list_filter_mset_classes)
  also have "\<dots> = mset [0..<length y]"
    using assms(2) by (intro filter_mset_cong [where g = "\<lambda>_. True", simplified]) auto
  finally show ?thesis .
qed

lemma map_zip3_fst:
  assumes "length cs = length ns" and "length ns = length ts"
  shows "map (\<lambda>(c, n, t). F c) (zip cs (zip ns ts)) = map F cs"
  using assms by (induction cs ns ts rule: list_induct3) simp_all

lemma count_replicates_train:
  assumes "length cs = length ns" and "length ns = length ts" and "distinct cs"
  shows "count (sum_list (map (\<lambda>(c, n, t). replicate_mset n c) (zip cs (zip ns ts)))) c0
         = (\<Sum>k < length cs. if cs ! k = c0 then ns ! k else 0)"
  using assms
proof (induction cs ns ts rule: list_induct3)
  case Nil
  then show ?case by simp
next
  case (Cons c cs n ns t ts)
  have "(\<Sum>k < Suc (length cs). if (c # cs) ! k = c0 then (n # ns) ! k else 0)
        = (if c = c0 then n else 0) + (\<Sum>k < length cs. if cs ! k = c0 then ns ! k else 0)"
    by (simp add: sum.lessThan_Suc_shift del: sum.lessThan_Suc cong: if_cong)
  with Cons show ?case
    by simp
qed

lemma count_replicates_test:
  assumes "length cs = length ns" and "length ns = length ts" and "distinct cs"
  shows "count (sum_list (map (\<lambda>(c, n, t). replicate_mset t c) (zip cs (zip ns ts)))) c0
         = (\<Sum>k < length cs. if cs ! k = c0 then ts ! k else 0)"
  using assms
proof (induction cs ns ts rule: list_induct3)
  case Nil
  then show ?case by simp
next
  case (Cons c cs n ns t ts)
  have "(\<Sum>k < Suc (length cs). if (c # cs) ! k = c0 then (t # ts) ! k else 0)
        = (if c = c0 then t else 0) + (\<Sum>k < length cs. if cs ! k = c0 then ts ! k else 0)"
    by (simp add: sum.lessThan_Suc_shift del: sum.lessThan_Suc cong: if_cong)
  with Cons show ?case
    by simp
qed

lemma sum_at_class:
  assumes "distinct cs" and "k0 < length cs"
  shows "(\<Sum>k < length cs. if cs ! k = cs ! k0 then (f k :: nat) else 0) = f k0"
proof -
  have "\<And>k. k < length cs \<Longrightarrow> (cs ! k = cs ! k0) = (k = k0)"
    using assms by (simp add: nth_eq_iff_index_eq)
  then have "(\<Sum>k < length cs. if cs ! k = cs ! k0 then f k else 0)
      = (\<Sum>k < length cs. if k = k0 then f k else 0)"
    by (intro sum.cong) auto
  also have "\<dots> = f k0"
    using assms(2) by simp
  finally show ?thesis .
qed

lemma sum_no_class:
  assumes "c0 \<notin> set cs"
  shows "(\<Sum>k < length cs. if cs ! k = c0 then (f k :: nat) else 0) = 0"
  using assms by (auto simp: in_set_conv_nth)

lemma sum_list_map2_diff:
  fixes xs ys :: "nat list"
  assumes "length xs = length ys" and "\<forall>i < length xs. ys ! i \<le> xs ! i"
  shows "sum_list (map2 (-) xs ys) = sum_list xs - sum_list ys \<and> sum_list ys \<le> sum_list xs"
  using assms
proof (induction xs ys rule: list_induct2)
  case Nil
  then show ?case by simp
next
  case (Cons x xs y ys)
  from Cons.prems have h: "y \<le> x" and t: "\<forall>i < length xs. ys ! i \<le> xs ! i"
    by auto
  from Cons.IH [OF t] h show ?case
    by simp
qed

lemma size_replicates_train:
  assumes "length cs = length ns" and "length ns = length ts"
  shows "size (sum_list (map (\<lambda>(c, n, t). replicate_mset n c) (zip cs (zip ns ts)))) = sum_list ns"
  using assms by (induction cs ns ts rule: list_induct3) simp_all

lemma size_replicates_test:
  assumes "length cs = length ns" and "length ns = length ts"
  shows "size (sum_list (map (\<lambda>(c, n, t). replicate_mset t c) (zip cs (zip ns ts)))) = sum_list ts"
  using assms by (induction cs ns ts rule: list_induct3) simp_all

lemma stratified_shuffle_split_props:
  fixes y :: "'y::linorder list"
  assumes nt: "0 < n_train" "0 < n_test" "length y = n_train + n_test"
    and big: "\<forall>c \<in> set y. 2 \<le> count_list y c"
    and k1: "length (remdups y) \<le> n_train" and k2: "length (remdups y) \<le> n_test"
  shows "\<exists>train test. stratified_shuffle_split g y n_train n_test = Inr (train, test) \<and>
      mset train + mset test = mset [0..<length y] \<and>
      length train = n_train \<and> length test = n_test \<and>
      (\<forall>c. \<bar>real (count (mset (map (\<lambda>i. y ! i) train)) c)
              - real (count_list y c) / real (length y) * real n_train\<bar> < 1) \<and>
      (\<forall>c. \<bar>real (count (mset (map (\<lambda>i. y ! i) test)) c)
              - real (count_list y c) / real (length y) * real n_test\<bar> < 1)"
proof -
  define classes where "classes = sort (remdups y)"
  define class_counts where "class_counts = map (count_list y) classes"
  define K where "K = length classes"
  have dc: "distinct classes" and sc: "set classes = set y"
    by (simp_all add: classes_def)
  have lK: "length class_counts = K" "K = length (remdups y)"
    by (simp_all add: class_counts_def K_def classes_def)
  have cc_nth: "\<And>k. k < K \<Longrightarrow> class_counts ! k = count_list y (classes ! k)"
    by (simp add: class_counts_def K_def)
  have total: "sum_list class_counts = length y"
    unfolding class_counts_def using dc sc by (rule sum_list_class_counts)
  have yne: "y \<noteq> []"
    using nt by auto
  then have cne: "class_counts \<noteq> []"
    using sc by (auto simp: class_counts_def)
  have "\<forall>x \<in> set class_counts. 2 \<le> x"
    using big sc by (auto simp: class_counts_def)
  then have min2: "\<not> Min (set class_counts) < 2"
    using cne by (simp add: Min_less_iff not_less)
  have vs: "validate_sizes (length y) n_train n_test = Inr ()"
    using nt by (simp add: validate_sizes_def)
  \<comment> \<open>the class sizes of the training set\<close>
  from approximate_mode_props [where class_counts = class_counts and n_draws = n_train and g = g]
    total nt
  obtain n_i g1 where n_i: "approximate_mode g class_counts n_train = Inr (n_i, g1)"
      "length n_i = K" "sum_list n_i = n_train"
      "\<forall>k < K. n_i ! k \<le> class_counts ! k \<and>
         \<bar>real (n_i ! k) - real (class_counts ! k) / real (length y) * real n_train\<bar> < 1"
    using lK by auto
  \<comment> \<open>the class sizes of the test set are what is left of each class\<close>
  define remaining where "remaining = map2 (-) class_counts n_i"
  have lr: "length remaining = K"
    using lK n_i(2) by (simp add: remaining_def)
  have rem_nth: "\<And>k. k < K \<Longrightarrow> remaining ! k = class_counts ! k - n_i ! k"
    using lK n_i(2) by (simp add: remaining_def)
  have "sum_list remaining = sum_list class_counts - sum_list n_i"
    unfolding remaining_def using sum_list_map2_diff [of class_counts n_i] lK n_i(2,4) by simp
  then have sr: "sum_list remaining = n_test"
    using total n_i(3) nt by simp
  from approximate_mode_all [where class_counts = remaining and g = g1] sr nt
  obtain g2 where t_i: "approximate_mode g1 remaining n_test = Inr (remaining, g2)"
    by auto
  \<comment> \<open>the loop over the classes\<close>
  define cls where "cls = zip classes (zip n_i remaining)"
  have lens: "length classes = length n_i" "length n_i = length remaining"
    using n_i(2) lr by (simp_all add: K_def)
  have fill: "\<forall>(c, n, t) \<in> set cls. n + t = length (class_indices y c)"
  proof -
    have "\<And>c n t. (c, n, t) \<in> set cls \<Longrightarrow> n + t = length (class_indices y c)"
    proof -
      fix c n t
      assume "(c, n, t) \<in> set cls"
      then obtain k where k: "k < K" "c = classes ! k" "n = n_i ! k" "t = remaining ! k"
        using lens by (auto simp: cls_def set_zip K_def)
      have "n_i ! k \<le> class_counts ! k"
        using n_i(4) k(1) by simp
      then show "n + t = length (class_indices y c)"
        using k rem_nth cc_nth by (simp add: length_class_indices)
    qed
    then show ?thesis
      by auto
  qed
  obtain tr te g3 where ext: "extend_classes g2 y cls [] [] = (tr, te, g3)"
    by (cases "extend_classes g2 y cls [] []") auto
  from extend_classes_props [OF fill, where g = g2 and train = "[]" and test = "[]"] have
    e1: "mset tr + mset te = sum_list (map (\<lambda>(c, n, t). mset (class_indices y c)) cls)" and
    e2: "mset (map (\<lambda>i. y ! i) tr) = sum_list (map (\<lambda>(c, n, t). replicate_mset n c) cls)" and
    e3: "mset (map (\<lambda>i. y ! i) te) = sum_list (map (\<lambda>(c, n, t). replicate_mset t c) cls)"
    by (simp_all add: ext)
  define train where "train = permutation g3 tr"
  define test where "test = permutation (advance (length tr - 1) g3) te"
  have clne: "classes \<noteq> []"
    using cne by (auto simp: class_counts_def)
  have res: "stratified_shuffle_split g y n_train n_test = Inr (train, test)"
    using vs cne clne min2 k1 k2 n_i(1) t_i ext lK
    by (simp add: stratified_shuffle_split_def Let_def classes_def [symmetric]
        class_counts_def [symmetric] remaining_def [symmetric] cls_def [symmetric]
        train_def test_def K_def [symmetric] not_less)
  have mtr: "mset train = mset tr" and mte: "mset test = mset te"
    by (simp_all add: train_def test_def mset_permutation)
  have "map (\<lambda>(c, n, t). mset (class_indices y c)) cls = map (\<lambda>c. mset (class_indices y c)) classes"
    unfolding cls_def using lens by (rule map_zip3_fst)
  then have part: "mset train + mset test = mset [0..<length y]"
    using e1 class_indices_partition [OF dc sc] by (simp add: mtr mte)
  have ytr: "mset (map (\<lambda>i. y ! i) train) = sum_list (map (\<lambda>(c, n, t). replicate_mset n c) cls)"
    using e2 mtr by (metis mset_map)
  have yte: "mset (map (\<lambda>i. y ! i) test) = sum_list (map (\<lambda>(c, n, t). replicate_mset t c) cls)"
    using e3 mte by (metis mset_map)
  have "size (mset (map (\<lambda>i. y ! i) train)) = sum_list n_i"
    unfolding ytr cls_def using lens by (rule size_replicates_train)
  then have ltr: "length train = n_train"
    using n_i(3) by simp
  have "size (mset (map (\<lambda>i. y ! i) test)) = sum_list remaining"
    unfolding yte cls_def using lens by (rule size_replicates_test)
  then have lte: "length test = n_test"
    using sr by simp
  have ctr: "\<And>c. count (mset (map (\<lambda>i. y ! i) train)) c
      = (\<Sum>k < K. if classes ! k = c then n_i ! k else 0)"
    unfolding ytr cls_def K_def using lens dc by (intro count_replicates_train)
  have cte: "\<And>c. count (mset (map (\<lambda>i. y ! i) test)) c
      = (\<Sum>k < K. if classes ! k = c then remaining ! k else 0)"
    unfolding yte cls_def K_def using lens dc by (intro count_replicates_test)
  have N: "0 < real (length y)"
    using yne by simp
  have close_all: "\<And>c. \<bar>real (count (mset (map (\<lambda>i. y ! i) train)) c)
              - real (count_list y c) / real (length y) * real n_train\<bar> < 1 \<and>
            \<bar>real (count (mset (map (\<lambda>i. y ! i) test)) c)
              - real (count_list y c) / real (length y) * real n_test\<bar> < 1"
  proof -
    fix c
    show "\<bar>real (count (mset (map (\<lambda>i. y ! i) train)) c)
              - real (count_list y c) / real (length y) * real n_train\<bar> < 1 \<and>
            \<bar>real (count (mset (map (\<lambda>i. y ! i) test)) c)
              - real (count_list y c) / real (length y) * real n_test\<bar> < 1"
    proof (cases "c \<in> set y")
      case False
      then have "c \<notin> set classes"
        using sc by simp
      then have "count (mset (map (\<lambda>i. y ! i) train)) c = 0"
        "count (mset (map (\<lambda>i. y ! i) test)) c = 0"
        unfolding ctr cte K_def by (simp_all add: sum_no_class)
      moreover have "count_list y c = 0"
        using False by (simp add: count_list_0_iff)
      ultimately show ?thesis
        by (simp only: of_nat_0 div_0 mult_zero_left diff_self abs_zero zero_less_one conj_absorb)
    next
      case True
      then obtain k0 where k0: "k0 < K" "classes ! k0 = c"
        using sc by (metis K_def in_set_conv_nth)
      have a: "count (mset (map (\<lambda>i. y ! i) train)) c = n_i ! k0"
        unfolding ctr K_def k0(2) [symmetric] using dc k0(1) [unfolded K_def]
        by (rule sum_at_class)
      have b: "count (mset (map (\<lambda>i. y ! i) test)) c = remaining ! k0"
        unfolding cte K_def k0(2) [symmetric] using dc k0(1) [unfolded K_def]
        by (rule sum_at_class)
      have cnt: "class_counts ! k0 = count_list y c"
        using cc_nth k0 by simp
      from n_i(4) k0(1) cnt have le: "n_i ! k0 \<le> count_list y c" and
        close: "\<bar>real (n_i ! k0) - real (count_list y c) / real (length y) * real n_train\<bar> < 1"
        by auto
      have "real n_test = real (length y) - real n_train"
        using nt by simp
      then have "real (count_list y c) / real (length y) * real n_test
          = real (count_list y c) / real (length y) * real (length y)
            - real (count_list y c) / real (length y) * real n_train"
        by (simp only: right_diff_distrib)
      then have "real (count_list y c) / real (length y) * real n_test
          = real (count_list y c) - real (count_list y c) / real (length y) * real n_train"
        using N by simp
      moreover have "real (remaining ! k0) = real (count_list y c) - real (n_i ! k0)"
        using rem_nth [OF k0(1)] cnt le by simp
      ultimately have close2: "\<bar>real (remaining ! k0)
          - real (count_list y c) / real (length y) * real n_test\<bar> < 1"
        using close by simp
      show ?thesis
        unfolding a b using close close2 by blast
    qed
  qed
  show ?thesis
    using res part ltr lte close_all by blast
qed

lemma validate_shuffle_split_props:
  assumes "validate_shuffle_split n_samples test_size = Inr (n_train, n_test)"
  shows "0 < n_train" and "0 < n_test" and "n_samples = n_train + n_test"
    and "n_test = nat \<lceil>test_size * real n_samples\<rceil>"
proof -
  from assms have ts: "0 < test_size" "test_size < 1"
    and nte: "n_test = nat \<lceil>test_size * real n_samples\<rceil>"
    and ntr: "n_train = n_samples - n_test" and pos: "n_train \<noteq> 0"
    by (auto simp: validate_shuffle_split_def Let_def split: if_splits)
  show "n_test = nat \<lceil>test_size * real n_samples\<rceil>"
    by (rule nte)
  show "0 < n_train"
    using pos by simp
  then have "0 < n_samples"
    using ntr by simp
  then have "0 < test_size * real n_samples"
    using ts by simp
  then have "0 < \<lceil>test_size * real n_samples\<rceil>"
    by simp
  then show "0 < n_test"
    using nte by simp
  show "n_samples = n_train + n_test"
    using ntr pos by simp
qed

lemma ceiling_fifth: "nat \<lceil>0.2 * real n\<rceil> = (n + 4) div 5"
proof -
  have "\<lceil>0.2 * real n\<rceil> = int ((n + 4) div 5)"
  proof (rule ceiling_unique)
    show "of_int (int ((n + 4) div 5)) - 1 < 0.2 * real n"
    proof -
      have "(n + 4) div 5 * 5 \<le> n + 4"
        by simp
      then have "real ((n + 4) div 5) * 5 \<le> real n + 4"
        by (metis of_nat_mult of_nat_add of_nat_numeral of_nat_le_iff)
      then show ?thesis
        by simp
    qed
    show "0.2 * real n \<le> of_int (int ((n + 4) div 5))"
    proof -
      have "n + 4 < (n + 4) div 5 * 5 + 5"
        using mod_less_divisor [of 5 "n + 4"] div_mult_mod_eq [of "n + 4" 5] by linarith
      then have "n \<le> (n + 4) div 5 * 5"
        by simp
      then have "real n \<le> real ((n + 4) div 5) * 5"
        by (metis of_nat_mult of_nat_numeral of_nat_le_iff)
      then show ?thesis
        by simp
    qed
  qed
  then show ?thesis
    by simp
qed

lemma floor_four_fifths: "nat \<lfloor>0.8 * real n\<rfloor> = n - (n + 4) div 5"
proof -
  have "0 \<le> \<lceil>0.2 * real n\<rceil>"
    by simp
  then have c: "\<lceil>0.2 * real n\<rceil> = int ((n + 4) div 5)"
    using ceiling_fifth [of n] by linarith
  have "0.8 * real n = - (0.2 * real n) + of_int (int n)"
    by simp
  then have "\<lfloor>0.8 * real n\<rfloor> = \<lfloor>- (0.2 * real n)\<rfloor> + int n"
    by (simp only: floor_add_int)
  also have "\<lfloor>- (0.2 * real n)\<rfloor> = - \<lceil>0.2 * real n\<rceil>"
    by (simp add: ceiling_def)
  finally have "\<lfloor>0.8 * real n\<rfloor> = int n - int ((n + 4) div 5)"
    using c by simp
  then show ?thesis
    by simp
qed

lemma stratified_shuffle_split_small_class:
  fixes y :: "'y::linorder list"
  assumes "0 < n_train" "0 < n_test" "length y = n_train + n_test"
    and "c \<in> set y" and "count_list y c < 2"
  shows "\<exists>msg. stratified_shuffle_split g y n_train n_test = Inl (ValueError msg)"
proof -
  have vs: "validate_sizes (length y) n_train n_test = Inr ()"
    using assms(1-3) by (simp add: validate_sizes_def)
  let ?cc = "map (count_list y) (sort (remdups y))"
  have "count_list y c \<in> set ?cc"
    using assms(4) by simp
  then have "Min (set ?cc) \<le> count_list y c"
    by (intro Min_le) simp_all
  then have "Min (set ?cc) < 2"
    using assms(5) by simp
  then show ?thesis
    using vs by (simp add: stratified_shuffle_split_def Let_def)
qed

lemma stratified_shuffle_split_few_rows:
  fixes y :: "'y::linorder list"
  assumes "0 < n_train" "0 < n_test" "length y = n_train + n_test"
    and "n_train < length (remdups y) \<or> n_test < length (remdups y)"
  shows "\<exists>msg. stratified_shuffle_split g y n_train n_test = Inl (ValueError msg)"
proof -
  have vs: "validate_sizes (length y) n_train n_test = Inr ()"
    using assms(1-3) by (simp add: validate_sizes_def)
  show ?thesis
    using vs assms(4) by (auto simp: stratified_shuffle_split_def Let_def)
qed

lemma stratified_shuffle_split_iff:
  fixes y :: "'y::linorder list"
  assumes nt: "0 < n_train" "0 < n_test" "length y = n_train + n_test"
  shows "(\<exists>train test. stratified_shuffle_split g y n_train n_test = Inr (train, test)) \<longleftrightarrow>
     (\<forall>c \<in> set y. 2 \<le> count_list y c) \<and> length (remdups y) \<le> n_train \<and>
     length (remdups y) \<le> n_test"
proof
  assume ok: "\<exists>train test. stratified_shuffle_split g y n_train n_test = Inr (train, test)"
  have "\<forall>c \<in> set y. 2 \<le> count_list y c"
  proof (rule ccontr)
    assume "\<not> (\<forall>c \<in> set y. 2 \<le> count_list y c)"
    then obtain c where "c \<in> set y" "count_list y c < 2"
      by (auto simp: not_le)
    from stratified_shuffle_split_small_class [OF nt this, of g] ok show False
      by auto
  qed
  moreover have "length (remdups y) \<le> n_train \<and> length (remdups y) \<le> n_test"
  proof (rule ccontr)
    assume "\<not> (length (remdups y) \<le> n_train \<and> length (remdups y) \<le> n_test)"
    then have "n_train < length (remdups y) \<or> n_test < length (remdups y)"
      by auto
    from stratified_shuffle_split_few_rows [OF nt this, of g] ok show False
      by auto
  qed
  ultimately show "(\<forall>c \<in> set y. 2 \<le> count_list y c) \<and> length (remdups y) \<le> n_train \<and>
     length (remdups y) \<le> n_test"
    by simp
next
  assume "(\<forall>c \<in> set y. 2 \<le> count_list y c) \<and> length (remdups y) \<le> n_train \<and>
     length (remdups y) \<le> n_test"
  then show "\<exists>train test. stratified_shuffle_split g y n_train n_test = Inr (train, test)"
    using stratified_shuffle_split_props [OF nt, of g] by blast
qed

lemma train_test_split_Inr:
  fixes y :: "'y::linorder list"
  assumes "train_test_split env X y test_size random_state = Inr (Xtr, Xte, ytr, yte)"
  shows "\<exists>train test n_train n_test.
     length X = length y \<and>
     validate_shuffle_split (length X) test_size = Inr (n_train, n_test) \<and>
     stratified_shuffle_split (check_random_state env random_state) y n_train n_test
       = Inr (train, test) \<and>
     Xtr = map (\<lambda>i. X ! i) train \<and> Xte = map (\<lambda>i. X ! i) test \<and>
     ytr = map (\<lambda>i. y ! i) train \<and> yte = map (\<lambda>i. y ! i) test"
proof (cases "length X = length y")
  case False
  with assms show ?thesis
    by (simp add: train_test_split_def)
next
  case l: True
  show ?thesis
  proof (cases "validate_shuffle_split (length X) test_size")
    case (Inl e)
    with l assms show ?thesis
      by (simp add: train_test_split_def)
  next
    case (Inr p)
    obtain n_train n_test where p: "p = (n_train, n_test)"
      by (cases p)
    show ?thesis
    proof (cases "stratified_shuffle_split (check_random_state env random_state) y n_train n_test")
      case (Inl e)
      with l Inr p assms show ?thesis
        by (simp add: train_test_split_def)
    next
      case s: (Inr q)
      obtain train test where q: "q = (train, test)"
        by (cases q)
      from l Inr p s q assms have
        "Xtr = map (\<lambda>i. X ! i) train \<and> Xte = map (\<lambda>i. X ! i) test \<and>
         ytr = map (\<lambda>i. y ! i) train \<and> yte = map (\<lambda>i. y ! i) test"
        by (simp add: train_test_split_def)
      with l Inr p s q show ?thesis
        by blast
    qed
  qed
qed

lemma train_test_split_props:
  fixes y :: "'y::linorder list"
  assumes "train_test_split env X y test_size random_state = Inr (Xtr, Xte, ytr, yte)"
  shows "\<exists>train test.
     Xtr = map (\<lambda>i. X ! i) train \<and> Xte = map (\<lambda>i. X ! i) test \<and>
     ytr = map (\<lambda>i. y ! i) train \<and> yte = map (\<lambda>i. y ! i) test \<and>
     mset train + mset test = mset [0..<length X] \<and>
     length test = nat \<lceil>test_size * real (length X)\<rceil> \<and>
     length train + length test = length X \<and>
     (\<forall>c. \<bar>real (count_list ytr c) - real (count_list y c) / real (length y) * real (length train)\<bar> < 1 \<and>
          \<bar>real (count_list yte c) - real (count_list y c) / real (length y) * real (length test)\<bar> < 1)"
proof -
  from train_test_split_Inr [OF assms] obtain train test n_train n_test where
    l: "length X = length y" and
    v: "validate_shuffle_split (length X) test_size = Inr (n_train, n_test)" and
    s: "stratified_shuffle_split (check_random_state env random_state) y n_train n_test
       = Inr (train, test)" and
    r: "Xtr = map (\<lambda>i. X ! i) train" "Xte = map (\<lambda>i. X ! i) test"
       "ytr = map (\<lambda>i. y ! i) train" "yte = map (\<lambda>i. y ! i) test"
    by blast
  note nt = validate_shuffle_split_props [OF v]
  have nt': "0 < n_train" "0 < n_test" "length y = n_train + n_test"
    using nt(1-3) l by simp_all
  from s stratified_shuffle_split_iff [OF nt', of "check_random_state env random_state"]
  have c: "\<forall>c \<in> set y. 2 \<le> count_list y c" "length (remdups y) \<le> n_train"
    "length (remdups y) \<le> n_test"
    by blast+
  from stratified_shuffle_split_props [OF nt' c, of "check_random_state env random_state"] s
  have p: "mset train + mset test = mset [0..<length y]"
    "length train = n_train" "length test = n_test"
    "\<forall>c. \<bar>real (count (mset (map (\<lambda>i. y ! i) train)) c)
              - real (count_list y c) / real (length y) * real n_train\<bar> < 1"
    "\<forall>c. \<bar>real (count (mset (map (\<lambda>i. y ! i) test)) c)
              - real (count_list y c) / real (length y) * real n_test\<bar> < 1"
    by auto
  have "\<forall>c. \<bar>real (count_list ytr c) - real (count_list y c) / real (length y) * real (length train)\<bar> < 1 \<and>
          \<bar>real (count_list yte c) - real (count_list y c) / real (length y) * real (length test)\<bar> < 1"
    using p(2-5) unfolding r count_mset by blast
  moreover have "length test = nat \<lceil>test_size * real (length X)\<rceil>"
    using p(3) nt(4) by simp
  moreover have "length train + length test = length X"
    using p(2,3) nt(3) by simp
  moreover have "mset train + mset test = mset [0..<length X]"
    using p(1) l by simp
  ultimately show ?thesis
    using r by blast
qed

lemma validate_shuffle_split_fifth:
  "validate_shuffle_split n 0.2 =
     (if n - (n + 4) div 5 = 0 then Inl (ValueError ''the resulting train set will be empty'')
      else Inr (n - (n + 4) div 5, (n + 4) div 5))"
proof -
  have "nat \<lceil>0.2 * real n\<rceil> = (n + 4) div 5"
    by (rule ceiling_fifth)
  then show ?thesis
    unfolding validate_shuffle_split_def Let_def by simp
qed

text \<open>
  C4. Whenever the split of cell 8 returns, there are two lists of row positions, the
  rows and labels of the training and test sets being the rows and labels at these
  positions; every position of the input is in exactly one of the two lists, once; the
  test set has \<open>\<lceil>0.2 N\<rceil>\<close> rows and the training set the other \<open>\<lfloor>0.8 N\<rfloor>\<close>; in both
  sets the number of rows of each label differs by less than one from the label's share
  of the input times the size of the set; and 300 rows give 240 and 60.
\<close>

theorem split_sizes_disjoint_stratified:
  fixes y :: "'y::linorder list"
  assumes "train_test_split env X y 0.2 random_state = Inr (Xtr, Xte, ytr, yte)"
  shows "\<exists>train test.
     Xtr = map (\<lambda>i. X ! i) train \<and> Xte = map (\<lambda>i. X ! i) test \<and>
     ytr = map (\<lambda>i. y ! i) train \<and> yte = map (\<lambda>i. y ! i) test \<and>
     distinct (train @ test) \<and> set train \<union> set test = {..<length X} \<and>
     length Xtr = nat \<lfloor>0.8 * real (length X)\<rfloor> \<and>
     length Xte = nat \<lceil>0.2 * real (length X)\<rceil> \<and>
     length Xtr + length Xte = length X \<and>
     (\<forall>c. \<bar>real (count_list ytr c) - real (count_list y c) / real (length y) * real (length ytr)\<bar> < 1 \<and>
          \<bar>real (count_list yte c) - real (count_list y c) / real (length y) * real (length yte)\<bar> < 1) \<and>
     (length X = 300 \<longrightarrow> length Xtr = 240 \<and> length Xte = 60)"
proof -
  from train_test_split_props [OF assms] obtain train test where
    r: "Xtr = map (\<lambda>i. X ! i) train" "Xte = map (\<lambda>i. X ! i) test"
       "ytr = map (\<lambda>i. y ! i) train" "yte = map (\<lambda>i. y ! i) test" and
    m: "mset train + mset test = mset [0..<length X]" and
    lte: "length test = nat \<lceil>0.2 * real (length X)\<rceil>" and
    sum: "length train + length test = length X" and
    strata: "\<forall>c. \<bar>real (count_list ytr c) - real (count_list y c) / real (length y) * real (length train)\<bar> < 1 \<and>
          \<bar>real (count_list yte c) - real (count_list y c) / real (length y) * real (length test)\<bar> < 1"
    by blast
  have mm: "mset (train @ test) = mset [0..<length X]"
    using m by simp
  have d: "distinct (train @ test)"
    using mset_eq_imp_distinct_iff [OF mm] by simp
  have u: "set train \<union> set test = {..<length X}"
    using mset_eq_setD [OF mm] by (simp add: atLeast0LessThan)
  have lte': "length test = (length X + 4) div 5"
    using lte by (simp only: ceiling_fifth)
  then have ltr': "length train = length X - (length X + 4) div 5"
    using sum by simp
  then have ltr: "length train = nat \<lfloor>0.8 * real (length X)\<rfloor>"
    by (simp only: floor_four_fifths)
  have c300: "length X = 300 \<longrightarrow> length train = 240 \<and> length test = 60"
    using lte' ltr' by simp
  have "length Xtr = length train" "length Xte = length test"
    "length ytr = length train" "length yte = length test"
    by (simp_all add: r)
  then show ?thesis
    using r d u ltr lte sum strata c300 by (intro exI [of _ train] exI [of _ test]) simp
qed

text \<open>
  C10, amended. The split of a non-empty frame fails, with a \<^verbatim>\<open>ValueError\<close>,
  exactly when some label has fewer than two rows or the test set, of \<open>\<lceil>0.2 N\<rceil>\<close> rows,
  has fewer rows than there are labels; otherwise it returns the two sets.
\<close>

theorem split_fails_iff_too_few_rows:
  fixes y :: "'y::linorder list"
  assumes "length X = length y" and "y \<noteq> []"
  shows "if (\<exists>c \<in> set y. count_list y c < 2) \<or> nat \<lceil>0.2 * real (length y)\<rceil> < card (set y)
         then \<exists>msg. train_test_split env X y 0.2 random_state = Inl (ValueError msg)
         else \<exists>Xtr Xte ytr yte.
                train_test_split env X y 0.2 random_state = Inr (Xtr, Xte, ytr, yte)"
proof -
  define N where "N = length y"
  define n_test where "n_test = (N + 4) div 5"
  define n_train where "n_train = N - n_test"
  define g where "g = check_random_state env random_state"
  have K: "card (set y) = length (remdups y)"
    by (simp add: length_remdups_card_conv)
  have ce: "nat \<lceil>0.2 * real (length y)\<rceil> = n_test"
    by (simp only: ceiling_fifth n_test_def N_def)
  have N1: "1 \<le> N"
    using assms(2) by (cases y) (simp_all add: N_def)
  have val: "validate_shuffle_split (length X) 0.2 =
      (if n_train = 0 then Inl (ValueError ''the resulting train set will be empty'')
       else Inr (n_train, n_test))"
    unfolding validate_shuffle_split_fifth n_train_def n_test_def N_def assms(1) by (rule refl)
  show ?thesis
  proof (cases "N < 2")
    case True
    then have "N = 1"
      using N1 by simp
    then have "n_train = 0"
      by (simp add: n_train_def n_test_def)
    then have fail: "train_test_split env X y 0.2 random_state
        = Inl (ValueError ''the resulting train set will be empty'')"
      using assms(1) val by (simp add: train_test_split_def)
    obtain c where "c \<in> set y"
      using assms(2) by (cases y) auto
    moreover have "count_list y c \<le> length y"
      by (rule count_le_length)
    ultimately have "c \<in> set y \<and> count_list y c < 2"
      using True by (simp add: N_def)
    then have "\<exists>c \<in> set y. count_list y c < 2"
      by blast
    then show ?thesis
      unfolding ce K using fail by auto
  next
    case False
    then have pos: "0 < n_train" "0 < n_test" "length y = n_train + n_test"
      and ge: "n_test \<le> n_train"
      by (simp_all add: n_train_def n_test_def N_def [symmetric])
    have val': "validate_shuffle_split (length X) 0.2 = Inr (n_train, n_test)"
      using val pos by simp
    have unfold: "train_test_split env X y 0.2 random_state =
      (case stratified_shuffle_split g y n_train n_test of
         Inl e \<Rightarrow> Inl e
       | Inr (train, test) \<Rightarrow>
           Inr (map (\<lambda>i. X ! i) train, map (\<lambda>i. X ! i) test,
                map (\<lambda>i. y ! i) train, map (\<lambda>i. y ! i) test))"
      using assms(1) val' by (simp add: train_test_split_def g_def)
    show ?thesis
    proof (cases "(\<exists>c \<in> set y. count_list y c < 2) \<or> n_test < length (remdups y)")
      case True
      then have "\<exists>msg. stratified_shuffle_split g y n_train n_test = Inl (ValueError msg)"
      proof
        assume "\<exists>c \<in> set y. count_list y c < 2"
        then obtain c where "c \<in> set y" "count_list y c < 2"
          by blast
        from stratified_shuffle_split_small_class [OF pos this] show ?thesis .
      next
        assume "n_test < length (remdups y)"
        then have "n_train < length (remdups y) \<or> n_test < length (remdups y)"
          by simp
        from stratified_shuffle_split_few_rows [OF pos this] show ?thesis .
      qed
      then obtain msg where "stratified_shuffle_split g y n_train n_test = Inl (ValueError msg)"
        by blast
      then have "train_test_split env X y 0.2 random_state = Inl (ValueError msg)"
        unfolding unfold by simp
      then show ?thesis
        unfolding ce K using True by auto
    next
      case False
      then have ok: "\<forall>c \<in> set y. 2 \<le> count_list y c" "length (remdups y) \<le> n_test"
        by (auto simp: not_less)
      then have "length (remdups y) \<le> n_train"
        using ge by simp
      with ok stratified_shuffle_split_iff [OF pos, of g]
      obtain train test where "stratified_shuffle_split g y n_train n_test = Inr (train, test)"
        by blast
      then have "\<exists>Xtr Xte ytr yte.
          train_test_split env X y 0.2 random_state = Inr (Xtr, Xte, ytr, yte)"
        unfolding unfold by simp
      then show ?thesis
        unfolding ce K using False by auto
    qed
  qed
qed

lemma train_test_split_returns:
  fixes y :: "'y::linorder list"
  assumes "length X = length y" and "y \<noteq> []" and "\<forall>c \<in> set y. 2 \<le> count_list y c"
    and "card (set y) \<le> (length y + 4) div 5"
  shows "\<exists>Xtr Xte ytr yte. train_test_split env X y 0.2 random_state = Inr (Xtr, Xte, ytr, yte)"
proof -
  define N where "N = length y"
  define n_test where "n_test = (N + 4) div 5"
  define n_train where "n_train = N - n_test"
  define g where "g = check_random_state env random_state"
  obtain c where "c \<in> set y"
    using assms(2) by (cases y) auto
  then have "2 \<le> count_list y c"
    using assms(3) by blast
  moreover have "count_list y c \<le> length y"
    by (rule count_le_length)
  ultimately have N2: "2 \<le> N"
    by (simp add: N_def)
  then have pos: "0 < n_train" "0 < n_test" "length y = n_train + n_test"
    and ge: "n_test \<le> n_train"
    by (simp_all add: n_train_def n_test_def N_def [symmetric])
  have val: "validate_shuffle_split (length X) 0.2 = Inr (n_train, n_test)"
    unfolding validate_shuffle_split_fifth assms(1) N_def [symmetric] n_test_def [symmetric]
      n_train_def [symmetric]
    using pos(1) by simp
  have K: "length (remdups y) \<le> n_test"
    using assms(4) by (simp add: length_remdups_card_conv n_test_def N_def)
  then have "length (remdups y) \<le> n_train"
    using ge by simp
  with assms(3) K stratified_shuffle_split_iff [OF pos, of g]
  obtain train test where "stratified_shuffle_split g y n_train n_test = Inr (train, test)"
    by blast
  then show ?thesis
    unfolding train_test_split_def val g_def [symmetric] using assms(1) by simp
qed

lemma count_list_replicate: "count_list (replicate n x) c = (if x = c then n else 0)"
  by (induction n) auto

theorem split_sizes_disjoint_stratified_witness:
  "\<exists>Xtr Xte ytr yte.
     train_test_split \<lparr>seeded = (\<lambda>s i. s + i), global_rng = (\<lambda>i. i)\<rparr> [0..<300]
       (replicate 100 (1::nat) @ replicate 100 2 @ replicate 100 3) 0.2 (Some 42)
       = Inr (Xtr, Xte, ytr, yte) \<and>
     length Xtr = 240 \<and> length Xte = 60"
proof -
  let ?env = "\<lparr>seeded = (\<lambda>s i. s + i), global_rng = (\<lambda>i. i)\<rparr>"
  let ?y = "replicate 100 (1::nat) @ replicate 100 2 @ replicate 100 3"
  have s: "set ?y = {1, 2, 3}"
    by auto
  have h1: "length [0..<300] = length ?y"
    by simp
  have h2: "?y \<noteq> []"
    by simp
  have h3: "\<forall>c \<in> set ?y. 2 \<le> count_list ?y c"
    unfolding s by (simp add: count_list_replicate)
  have h4: "card (set ?y) \<le> (length ?y + 4) div 5"
    unfolding s by simp
  from train_test_split_returns [OF h1 h2 h3 h4, of ?env "Some 42"]
  obtain Xtr Xte ytr yte where
    r: "train_test_split ?env [0..<300] ?y 0.2 (Some 42) = Inr (Xtr, Xte, ytr, yte)"
    by blast
  from split_sizes_disjoint_stratified [OF r] have "length Xtr = 240 \<and> length Xte = 60"
    by auto
  with r show ?thesis
    by blast
qed

theorem split_fails_iff_too_few_rows_witness:
  "(\<exists>msg. train_test_split \<lparr>seeded = (\<lambda>s i. s + i), global_rng = (\<lambda>i. i)\<rparr> [0..<12]
       [1::nat, 1, 2, 2, 3, 3, 4, 4, 5, 5, 6, 6] 0.2 (Some 42) = Inl (ValueError msg)) \<and>
   (\<exists>Xtr Xte ytr yte.
      train_test_split \<lparr>seeded = (\<lambda>s i. s + i), global_rng = (\<lambda>i. i)\<rparr> [0..<10]
        [1::nat, 2, 1, 2, 1, 2, 1, 2, 1, 2] 0.2 (Some 42) = Inr (Xtr, Xte, ytr, yte))"
proof
  let ?env = "\<lparr>seeded = (\<lambda>s i. s + i), global_rng = (\<lambda>i. i)\<rparr>"
  let ?y = "[1::nat, 1, 2, 2, 3, 3, 4, 4, 5, 5, 6, 6]"
  have s: "set ?y = {1, 2, 3, 4, 5, 6}"
    by auto
  have c: "nat \<lceil>0.2 * real (length ?y)\<rceil> < card (set ?y)"
    unfolding s ceiling_fifth by simp
  from split_fails_iff_too_few_rows [of "[0..<12]" ?y ?env "Some 42"] c
  show "\<exists>msg. train_test_split ?env [0..<12] ?y 0.2 (Some 42) = Inl (ValueError msg)"
    by simp
next
  let ?env = "\<lparr>seeded = (\<lambda>s i. s + i), global_rng = (\<lambda>i. i)\<rparr>"
  let ?y = "[1::nat, 2, 1, 2, 1, 2, 1, 2, 1, 2]"
  have s: "set ?y = {1, 2}"
    by auto
  have c: "\<not> ((\<exists>c \<in> set ?y. count_list ?y c < 2) \<or>
              nat \<lceil>0.2 * real (length ?y)\<rceil> < card (set ?y))"
    unfolding s ceiling_fifth by simp
  from split_fails_iff_too_few_rows [of "[0..<10]" ?y ?env "Some 42"] c
  show "\<exists>Xtr Xte ytr yte.
      train_test_split ?env [0..<10] ?y 0.2 (Some 42) = Inr (Xtr, Xte, ytr, yte)"
    by simp
qed

theorem split_raises_ValueError:
  "train_test_split \<lparr>seeded = (\<lambda>s i. s + i), global_rng = (\<lambda>i. i)\<rparr> [0..<12]
       [1::nat, 1, 2, 2, 3, 3, 4, 4, 5, 5, 6, 6] 0.2 (Some 42)
   = Inl (ValueError ''The test_size should be greater or equal to the number of classes'')"
proof -
  have v: "validate_shuffle_split 12 0.2 = Inr (9, 3)"
    unfolding validate_shuffle_split_fifth by simp
  have s: "sort (remdups [1::nat, 1, 2, 2, 3, 3, 4, 4, 5, 5, 6, 6]) = [1, 2, 3, 4, 5, 6]"
    by simp
  from v have v': "validate_shuffle_split 12 (1 / 5) = Inr (9, 3)"
    by simp
  show ?thesis
    unfolding train_test_split_def
    by (simp add: v' stratified_shuffle_split_def validate_sizes_def s Let_def)
qed

section \<open>Standardisation\<close>







lemma np_mean_const:
  assumes "xs \<noteq> []" and "\<forall>x \<in> set xs. x = c"
  shows "np_mean xs = c"
proof -
  have "xs = replicate (length xs) c"
    using assms(2) by (simp add: replicate_length_same)
  then have "sum_list xs = real (length xs) * c"
    by (metis sum_list_replicate)
  then show ?thesis
    using assms(1) by (simp add: np_mean_def)
qed

lemma np_var_const:
  assumes "xs \<noteq> []" and "\<forall>x \<in> set xs. x = c"
  shows "np_var xs = 0"
proof -
  have "np_mean xs = c"
    using assms by (rule np_mean_const)
  then have "map (\<lambda>x. (x - np_mean xs)\<^sup>2) xs = map (\<lambda>_. 0) xs"
    using assms(2) by simp
  then have "sum_list (map (\<lambda>x. (x - np_mean xs)\<^sup>2) xs) = 0"
    by (simp only: sum_list_0)
  then show ?thesis
    by (simp add: np_var_def)
qed

lemma np_var_zero_const:
  assumes "xs \<noteq> []" and "np_var xs = 0"
  shows "\<forall>x \<in> set xs. x = np_mean xs"
proof -
  have "sum_list (map (\<lambda>x. (x - np_mean xs)\<^sup>2) xs) = 0"
    using assms by (simp add: np_var_def)
  then have "\<forall>x \<in> set xs. (x - np_mean xs)\<^sup>2 = 0"
    by (subst (asm) sum_list_nonneg_eq_0_iff) auto
  then show ?thesis
    by simp
qed

lemma fit_props:
  assumes "fit X = Inr sc"
  shows "X \<noteq> []" and "length (mean_attr sc) = n_features_of X"
    and "length (scale_attr sc) = n_features_of X"
    and "\<And>j. j < n_features_of X \<Longrightarrow> mean_attr sc ! j = np_mean (column_of X j)"
    and "\<And>j. j < n_features_of X \<Longrightarrow> var_attr sc ! j = np_var (column_of X j)"
    and "\<And>j. j < n_features_of X \<Longrightarrow>
           scale_attr sc ! j =
             (if np_var (column_of X j) = 0 then 1 else sqrt (np_var (column_of X j)))"
  using assms
  by (auto simp: fit_def Let_def handle_zeros_in_scale_def split: if_splits)

lemma scale_nonzero:
  assumes "fit X = Inr sc" and "j < n_features_of X"
  shows "scale_attr sc ! j \<noteq> 0"
  using fit_props(6) [OF assms] by simp

lemma transform_props:
  assumes "transform sc X = Inr Z"
  shows "\<forall>row \<in> set X. length row = length (mean_attr sc)"
    and "Z = map (\<lambda>row. map (\<lambda>j. np_divide (row ! j - mean_attr sc ! j) (scale_attr sc ! j))
                            [0..<length row]) X"
  using assms by (auto simp: transform_def split: if_splits)

lemma column_of_transform:
  assumes "transform sc X = Inr Z" and "j < length (mean_attr sc)"
  shows "column_of Z j =
         map (\<lambda>x. np_divide (x - mean_attr sc ! j) (scale_attr sc ! j)) (column_of X j)"
proof -
  have "\<And>row. row \<in> set X \<Longrightarrow>
      map (\<lambda>j. np_divide (row ! j - mean_attr sc ! j) (scale_attr sc ! j)) [0..<length row] ! j
      = np_divide (row ! j - mean_attr sc ! j) (scale_attr sc ! j)"
    using transform_props(1) [OF assms(1)] assms(2) by simp
  then show ?thesis
    by (simp add: transform_props(2) [OF assms(1)] column_of_def)
qed

lemma column_of_standardized:
  assumes "fit Xtr = Inr sc" and "transform sc X = Inr Z" and "j < n_features_of Xtr"
  shows "column_of Z j =
         map (\<lambda>x. Some ((x - np_mean (column_of Xtr j)) / scale_attr sc ! j)) (column_of X j)"
proof -
  have "j < length (mean_attr sc)"
    using fit_props(2) [OF assms(1)] assms(3) by simp
  then show ?thesis
    using column_of_transform [OF assms(2)] scale_nonzero [OF assms(1,3)]
      fit_props(4) [OF assms(1,3)]
    by (simp add: np_divide_def)
qed

text \<open>
  C6. A fitted scaler never divides by zero: whatever array it transforms, the training
  array or another one, no entry of the result is NaN or infinite. Where a training column
  is constant, with value \<open>c\<close>, its scale is one, the transformed training column is zero
  throughout and an entry \<open>x\<close> of that column in another array becomes \<open>x - c\<close>.
\<close>

theorem standardize_constant_column_finite:
  assumes "fit Xtr = Inr sc" and "transform sc Xtr = Inr Ztr" and "transform sc Xte = Inr Zte"
  shows "(\<forall>row \<in> set Ztr. None \<notin> set row) \<and> (\<forall>row \<in> set Zte. None \<notin> set row) \<and>
    (\<forall>j < n_features_of Xtr. \<forall>c. (\<forall>x \<in> set (column_of Xtr j). x = c) \<longrightarrow>
       scale_attr sc ! j = 1 \<and>
       column_of Ztr j = map (\<lambda>x. Some 0) (column_of Xtr j) \<and>
       column_of Zte j = map (\<lambda>x. Some (x - c)) (column_of Xte j))"
proof (intro conjI allI impI ballI)
  have finite: "\<And>X Z row. transform sc X = Inr Z \<Longrightarrow> row \<in> set Z \<Longrightarrow> None \<notin> set row"
  proof -
    fix X Z row
    assume t: "transform sc X = Inr Z" and row: "row \<in> set Z"
    from row transform_props(2) [OF t] obtain r where r: "r \<in> set X"
      "row = map (\<lambda>j. np_divide (r ! j - mean_attr sc ! j) (scale_attr sc ! j)) [0..<length r]"
      by auto
    have "length r = n_features_of Xtr"
      using transform_props(1) [OF t] r(1) fit_props(2) [OF assms(1)] by simp
    then have "\<And>j. j < length r \<Longrightarrow> scale_attr sc ! j \<noteq> 0"
      using scale_nonzero [OF assms(1)] by simp
    then show "None \<notin> set row"
      by (auto simp: r(2) np_divide_def)
  qed
  show "\<And>row. row \<in> set Ztr \<Longrightarrow> None \<notin> set row"
    using finite [OF assms(2)] .
  show "\<And>row. row \<in> set Zte \<Longrightarrow> None \<notin> set row"
    using finite [OF assms(3)] .
next
  fix j c
  assume j: "j < n_features_of Xtr" and const: "\<forall>x \<in> set (column_of Xtr j). x = c"
  have ne: "column_of Xtr j \<noteq> []"
    using fit_props(1) [OF assms(1)] by (simp add: column_of_def)
  have v0: "np_var (column_of Xtr j) = 0"
    using ne const by (rule np_var_const)
  have m: "np_mean (column_of Xtr j) = c"
    using ne const by (rule np_mean_const)
  show s1: "scale_attr sc ! j = 1"
    using fit_props(6) [OF assms(1) j] v0 by simp
  show "column_of Ztr j = map (\<lambda>x. Some 0) (column_of Xtr j)"
    using column_of_standardized [OF assms(1,2) j] s1 m const by simp
  show "column_of Zte j = map (\<lambda>x. Some (x - c)) (column_of Xte j)"
    using column_of_standardized [OF assms(1,3) j] s1 m by simp
qed










theorem standardize_constant_column_finite_witness:
  "fit [[1, 5], [3, 5]] = Inr \<lparr>mean_attr = [2, 5], var_attr = [1, 0], scale_attr = [1, 1]\<rparr> \<and>
   transform \<lparr>mean_attr = [2, 5], var_attr = [1, 0], scale_attr = [1, 1]\<rparr> [[1, 5], [3, 5]]
     = Inr [[Some (- 1), Some 0], [Some 1, Some 0]] \<and>
   transform \<lparr>mean_attr = [2, 5], var_attr = [1, 0], scale_attr = [1, 1]\<rparr> [[7, 7]]
     = Inr [[Some 5, Some 2]] \<and>
   column_of [[Some (- 1), Some 0], [Some 1, Some (0::real)]] 1
     = map (\<lambda>x. Some 0) (column_of [[1, 5], [3, 5::real]] 1) \<and>
   column_of [[Some 5, Some (2::real)]] 1 = map (\<lambda>x. Some (x - 5)) (column_of [[7, 7::real]] 1)"
proof -
  let ?sc = "\<lparr>mean_attr = [2, 5], var_attr = [1, 0], scale_attr = [1, 1]\<rparr>"
  have f: "fit [[1, 5], [3, 5]] = Inr ?sc"
    by (simp add: fit_def n_features_of_def column_of_def np_mean_def np_var_def
        handle_zeros_in_scale_def upt_rec power2_eq_square)
  have t1: "transform ?sc [[1, 5], [3, 5]] = Inr [[Some (- 1), Some 0], [Some 1, Some 0]]"
    by (simp add: transform_def np_divide_def upt_rec)
  have t2: "transform ?sc [[7, 7]] = Inr [[Some 5, Some 2]]"
    by (simp add: transform_def np_divide_def upt_rec)
  have j: "1 < n_features_of [[1, 5], [3, 5::real]]"
    by (simp add: n_features_of_def)
  have c: "\<forall>x \<in> set (column_of [[1, 5], [3, 5::real]] 1). x = 5"
    by (simp add: column_of_def)
  from standardize_constant_column_finite [OF f t1 t2] j c have
    "column_of [[Some (- 1), Some 0], [Some 1, Some (0::real)]] 1
       = map (\<lambda>x. Some 0) (column_of [[1, 5], [3, 5::real]] 1) \<and>
     column_of [[Some 5, Some (2::real)]] 1 = map (\<lambda>x. Some (x - 5)) (column_of [[7, 7::real]] 1)"
    by blast
  with f t1 t2 show ?thesis
    by blast
qed

section \<open>Correlation and feature selection\<close>

lemma welford_step_skip:
  "a = None \<or> b = None \<Longrightarrow> welford_step w (a, b) = w"
  by (auto simp: welford_step_def split: option.splits)

lemma welford_step_pair:
  "welford_step w (Some vx, Some vy) =
     \<lparr>nobs = nobs w + 1,
      meanx = meanx w + 1 / real (nobs w + 1) * (vx - meanx w),
      meany = meany w + 1 / real (nobs w + 1) * (vy - meany w),
      ssqdm_x = ssqdm_x w + (vx - (meanx w + 1 / real (nobs w + 1) * (vx - meanx w))) * (vx - meanx w),
      ssqdm_y = ssqdm_y w + (vy - (meany w + 1 / real (nobs w + 1) * (vy - meany w))) * (vy - meany w),
      covxy = covxy w + (vx - (meanx w + 1 / real (nobs w + 1) * (vx - meanx w))) * (vy - meany w)\<rparr>"
  by (simp add: welford_step_def Let_def)

lemma welford_x_constant:
  assumes "\<forall>(a, b) \<in> set ps. \<forall>v. a = Some v \<longrightarrow> v = c"
    and "ssqdm_x w = 0" and "0 < nobs w \<longrightarrow> meanx w = c"
  shows "ssqdm_x (foldl welford_step w ps) = 0"
  using assms
proof (induction ps arbitrary: w)
  case Nil
  then show ?case by simp
next
  case (Cons p ps)
  obtain a b where p: "p = (a, b)"
    by (cases p)
  have rest: "\<forall>(a, b) \<in> set ps. \<forall>v. a = Some v \<longrightarrow> v = c"
    using Cons.prems(1) by simp
  show ?case
  proof (cases "a = None \<or> b = None")
    case True
    then have "welford_step w p = w"
      unfolding p by (rule welford_step_skip)
    then show ?thesis
      using Cons.IH [OF rest Cons.prems(2,3)] by simp
  next
    case False
    then obtain vx vy where ab: "a = Some vx" "b = Some vy"
      by auto
    then have vx: "vx = c"
      using Cons.prems(1) p by simp
    let ?w = "welford_step w p"
    have mx: "meanx ?w = c"
    proof (cases "0 < nobs w")
      case True
      then show ?thesis
        using Cons.prems(3) by (simp add: p ab vx welford_step_pair)
    next
      case False
      then show ?thesis
        by (simp add: p ab vx welford_step_pair)
    qed
    have "ssqdm_x ?w = ssqdm_x w + (vx - meanx ?w) * (vx - meanx w)"
      by (simp add: p ab welford_step_pair)
    then have sx: "ssqdm_x ?w = 0"
      using mx vx Cons.prems(2) by simp
    from Cons.IH [OF rest sx] mx show ?thesis
      by simp
  qed
qed

lemma welford_y_constant:
  assumes "\<forall>(a, b) \<in> set ps. \<forall>v. b = Some v \<longrightarrow> v = c"
    and "ssqdm_y w = 0" and "0 < nobs w \<longrightarrow> meany w = c"
  shows "ssqdm_y (foldl welford_step w ps) = 0"
  using assms
proof (induction ps arbitrary: w)
  case Nil
  then show ?case by simp
next
  case (Cons p ps)
  obtain a b where p: "p = (a, b)"
    by (cases p)
  have rest: "\<forall>(a, b) \<in> set ps. \<forall>v. b = Some v \<longrightarrow> v = c"
    using Cons.prems(1) by simp
  show ?case
  proof (cases "a = None \<or> b = None")
    case True
    then have "welford_step w p = w"
      unfolding p by (rule welford_step_skip)
    then show ?thesis
      using Cons.IH [OF rest Cons.prems(2,3)] by simp
  next
    case False
    then obtain vx vy where ab: "a = Some vx" "b = Some vy"
      by auto
    then have vy: "vy = c"
      using Cons.prems(1) p by simp
    let ?w = "welford_step w p"
    have my: "meany ?w = c"
    proof (cases "0 < nobs w")
      case True
      then show ?thesis
        using Cons.prems(3) by (simp add: p ab vy welford_step_pair)
    next
      case False
      then show ?thesis
        by (simp add: p ab vy welford_step_pair)
    qed
    have "ssqdm_y ?w = ssqdm_y w + (vy - meany ?w) * (vy - meany w)"
      by (simp add: p ab welford_step_pair)
    then have sy: "ssqdm_y ?w = 0"
      using my vy Cons.prems(2) by simp
    from Cons.IH [OF rest sy] my show ?thesis
      by simp
  qed
qed

lemma welford_increment:
  "(v - (m + 1 / real (k + 1) * (v - m))) * (v - m) = (v - m)\<^sup>2 * (real k / real (k + 1))"
proof -
  have "v - (m + 1 / real (k + 1) * (v - m)) = (v - m) * (1 - 1 / real (k + 1))"
    by (simp add: algebra_simps)
  also have "1 - 1 / real (k + 1) = real k / real (k + 1)"
    by (simp add: field_simps)
  finally show ?thesis
    by (simp add: power2_eq_square mult_ac)
qed

lemma map_filter_id_snoc:
  "List.map_filter id (xs @ [a]) =
     List.map_filter id xs @ (case a of None \<Rightarrow> [] | Some v \<Rightarrow> [v])"
  by (cases a) (simp_all add: List.map_filter_def)

lemma welford_self:
  fixes xs :: "real option list"
  defines "w \<equiv> foldl welford_step welford_init (zip xs xs)"
  defines "pres \<equiv> List.map_filter id xs"
  shows "nobs w = length pres \<and> meany w = meanx w \<and> ssqdm_y w = ssqdm_x w \<and>
     covxy w = ssqdm_x w \<and>
     ((\<forall>v \<in> set pres. v = hd pres) \<longrightarrow>
        ssqdm_x w = 0 \<and> (pres \<noteq> [] \<longrightarrow> meanx w = hd pres)) \<and>
     (\<not> (\<forall>v \<in> set pres. v = hd pres) \<longrightarrow> 0 < ssqdm_x w)"
  unfolding w_def pres_def
proof (induction xs rule: rev_induct)
  case Nil
  show ?case
    by (simp add: welford_init_def List.map_filter_simps)
next
  case (snoc a xs)
  define w where "w = foldl welford_step welford_init (zip xs xs)"
  define pres where "pres = List.map_filter id xs"
  note IH = snoc.IH [folded w_def pres_def]
  have fold: "foldl welford_step welford_init (zip (xs @ [a]) (xs @ [a])) = welford_step w (a, a)"
    by (simp add: w_def)
  show ?case
  proof (cases a)
    case None
    then have same: "welford_step w (a, a) = w"
      by (simp add: welford_step_skip)
    have pres': "List.map_filter id (xs @ [a]) = pres"
      using None by (simp add: map_filter_id_snoc pres_def)
    show ?thesis
      unfolding fold same pres' by (rule IH)
  next
    case (Some v)
    let ?w = "welford_step w (a, a)"
    let ?k = "nobs w"
    have pres': "List.map_filter id (xs @ [a]) = pres @ [v]"
      using Some by (simp add: map_filter_id_snoc pres_def)
    from IH have n: "nobs w = length pres" and my: "meany w = meanx w"
      and sy: "ssqdm_y w = ssqdm_x w" and cv: "covxy w = ssqdm_x w"
      and const: "(\<forall>v \<in> set pres. v = hd pres) \<longrightarrow>
                    ssqdm_x w = 0 \<and> (pres \<noteq> [] \<longrightarrow> meanx w = hd pres)"
      and pos: "\<not> (\<forall>v \<in> set pres. v = hd pres) \<longrightarrow> 0 < ssqdm_x w"
      by blast+
    have n': "nobs ?w = length (pres @ [v])"
      using n by (simp add: Some welford_step_pair)
    have my': "meany ?w = meanx ?w"
      using my by (simp add: Some welford_step_pair)
    have "ssqdm_x ?w = ssqdm_x w
        + (v - (meanx w + 1 / real (?k + 1) * (v - meanx w))) * (v - meanx w)"
      unfolding Some welford_step_pair by simp
    then have sx': "ssqdm_x ?w = ssqdm_x w + (v - meanx w)\<^sup>2 * (real ?k / real (?k + 1))"
      unfolding welford_increment .
    have sy': "ssqdm_y ?w = ssqdm_x ?w"
      using my sy by (simp add: Some welford_step_pair)
    have cv': "covxy ?w = ssqdm_x ?w"
      using my cv by (simp add: Some welford_step_pair)
    have inc: "0 \<le> (v - meanx w)\<^sup>2 * (real ?k / real (?k + 1))"
      by simp
    have mx': "meanx ?w = meanx w + 1 / real (?k + 1) * (v - meanx w)"
      by (simp add: Some welford_step_pair)
    have c': "(\<forall>u \<in> set (pres @ [v]). u = hd (pres @ [v])) \<longrightarrow>
                meanx ?w = hd (pres @ [v]) \<and> ssqdm_x ?w = 0"
    proof
      assume all: "\<forall>u \<in> set (pres @ [v]). u = hd (pres @ [v])"
      show "meanx ?w = hd (pres @ [v]) \<and> ssqdm_x ?w = 0"
      proof (cases "pres = []")
        case True
        then have "?k = 0"
          using n by simp
        then show ?thesis
          using True const sx' mx' pos by simp
      next
        case False
        then have h: "hd (pres @ [v]) = hd pres"
          by simp
        with all have "\<forall>u \<in> set pres. u = hd pres" and "v = hd pres"
          by simp_all
        with const False have "meanx w = hd pres" "ssqdm_x w = 0" "v = meanx w"
          by simp_all
        then show ?thesis
          using sx' mx' h by simp
      qed
    qed
    have p': "\<not> (\<forall>u \<in> set (pres @ [v]). u = hd (pres @ [v])) \<longrightarrow> 0 < ssqdm_x ?w"
    proof
      assume nall: "\<not> (\<forall>u \<in> set (pres @ [v]). u = hd (pres @ [v]))"
      then have ne: "pres \<noteq> []"
        by auto
      then have h: "hd (pres @ [v]) = hd pres"
        by simp
      show "0 < ssqdm_x ?w"
      proof (cases "\<forall>u \<in> set pres. u = hd pres")
        case False
        with pos have "0 < ssqdm_x w"
          by simp
        with inc sx' show ?thesis
          by linarith
      next
        case True
        with const ne have m: "meanx w = hd pres" and z: "ssqdm_x w = 0"
          by simp_all
        from nall True h have "v \<noteq> hd pres"
          by auto
        then have "0 < (v - meanx w)\<^sup>2"
          using m by simp
        moreover have "0 < real ?k / real (?k + 1)"
          using n ne by simp
        ultimately have "0 < (v - meanx w)\<^sup>2 * (real ?k / real (?k + 1))"
          by (rule mult_pos_pos)
        with z sx' show ?thesis
          by simp
      qed
    qed
    from c' have c'': "(\<forall>u \<in> set (pres @ [v]). u = hd (pres @ [v])) \<longrightarrow>
                ssqdm_x ?w = 0 \<and> (pres @ [v] \<noteq> [] \<longrightarrow> meanx ?w = hd (pres @ [v]))"
      by blast
    show ?thesis
      unfolding fold pres' using n' my' sy' cv' c'' p' by blast
  qed
qed

lemma np_var_zero_iff: "np_var vs = 0 \<longleftrightarrow> (\<forall>v \<in> set vs. v = hd vs)"
proof (cases "vs = []")
  case True
  then show ?thesis
    by (simp add: np_var_def)
next
  case False
  show ?thesis
  proof
    assume "np_var vs = 0"
    with False have all: "\<forall>v \<in> set vs. v = np_mean vs"
      by (rule np_var_zero_const)
    moreover have "hd vs \<in> set vs"
      using False by simp
    ultimately have "hd vs = np_mean vs"
      by blast
    with all show "\<forall>v \<in> set vs. v = hd vs"
      by simp
  next
    assume "\<forall>v \<in> set vs. v = hd vs"
    with False show "np_var vs = 0"
      by (rule np_var_const)
  qed
qed

lemma nancorr_pair_self:
  assumes "np_var (List.map_filter id xs) \<noteq> 0"
  shows "nancorr_pair xs xs = Some 1"
proof -
  define w where "w = foldl welford_step welford_init (zip xs xs)"
  define pres where "pres = List.map_filter id xs"
  note ws = welford_self [of xs, folded w_def pres_def]
  from assms have nc: "\<not> (\<forall>v \<in> set pres. v = hd pres)"
    by (simp add: np_var_zero_iff pres_def)
  then have "pres \<noteq> []"
    by auto
  with ws have n: "\<not> nobs w < 1"
    by simp
  from ws nc have pos: "0 < ssqdm_x w" and sy: "ssqdm_y w = ssqdm_x w" and cv: "covxy w = ssqdm_x w"
    by blast+
  have d: "sqrt (ssqdm_x w * ssqdm_y w) = ssqdm_x w"
    using pos sy by simp
  show ?thesis
    unfolding nancorr_pair_def w_def [symmetric] Let_def d using n pos cv by simp
qed

lemma nancorr_pair_constant:
  assumes "np_var (List.map_filter id xs) = 0"
  shows "nancorr_pair xs ys = None" and "nancorr_pair ys xs = None"
proof -
  define c where "c = hd (List.map_filter id xs)"
  from assms have "\<forall>v \<in> set (List.map_filter id xs). v = c"
    by (simp add: np_var_zero_iff c_def)
  then have all: "\<And>v. Some v \<in> set xs \<Longrightarrow> v = c"
    by (force simp: List.map_filter_def)
  have i: "ssqdm_x welford_init = 0" "ssqdm_y welford_init = 0"
    "0 < nobs welford_init \<longrightarrow> meanx welford_init = c"
    "0 < nobs welford_init \<longrightarrow> meany welford_init = c"
    by (simp_all add: welford_init_def)
  have "\<forall>(a, b) \<in> set (zip xs ys). \<forall>v. a = Some v \<longrightarrow> v = c"
    using all by (auto dest: set_zip_leftD)
  from welford_x_constant [OF this i(1,3)]
  show "nancorr_pair xs ys = None"
    by (simp add: nancorr_pair_def Let_def)
  have "\<forall>(a, b) \<in> set (zip ys xs). \<forall>v. b = Some v \<longrightarrow> v = c"
    using all by (auto dest: set_zip_rightD)
  from welford_y_constant [OF this i(2,4)]
  show "nancorr_pair ys xs = None"
    by (simp add: nancorr_pair_def Let_def)
qed

lemma abs_max_exceeds_iff:
  "abs_max_exceeds t col \<longleftrightarrow> (\<exists>r. Some r \<in> set col \<and> t < \<bar>r\<bar>)"
proof -
  define vs where "vs = List.map_filter id (map (map_option abs) col)"
  have sv: "set vs = {\<bar>r\<bar> | r. Some r \<in> set col}"
    unfolding vs_def List.map_filter_def by (auto simp: image_iff) force
  show ?thesis
  proof (cases "vs = []")
    case True
    then have "\<And>r. Some r \<notin> set col"
      using sv by auto
    moreover have "\<not> abs_max_exceeds t col"
      using True by (simp add: abs_max_exceeds_def nanmax_def vs_def [symmetric])
    ultimately show ?thesis
      by blast
  next
    case False
    then have "abs_max_exceeds t col \<longleftrightarrow> t < Max (set vs)"
      by (simp add: abs_max_exceeds_def nanmax_def vs_def [symmetric])
    also have "\<dots> \<longleftrightarrow> (\<exists>v \<in> set vs. t < v)"
      using False by (simp add: Max_gr_iff)
    also have "\<dots> \<longleftrightarrow> (\<exists>r. Some r \<in> set col \<and> t < \<bar>r\<bar>)"
      unfolding sv by blast
    finally show ?thesis .
  qed
qed

lemma corr_nth:
  "j < length df \<Longrightarrow>
   corr df ! j = (fst (df ! j),
     map (\<lambda>i. nancorr_pair (snd (df ! max i j)) (snd (df ! min i j))) [0..<length df])"
  by (simp add: corr_def)

lemma corr_column_selected:
  assumes "j < length df"
  shows "abs_max_exceeds (1 / 2) (snd (corr df ! j)) \<longleftrightarrow>
         np_var (List.map_filter id (snd (df ! j))) \<noteq> 0"
proof
  assume "np_var (List.map_filter id (snd (df ! j))) \<noteq> 0"
  then have "nancorr_pair (snd (df ! j)) (snd (df ! j)) = Some 1"
    by (rule nancorr_pair_self)
  then have "Some 1 \<in> set (snd (corr df ! j))"
    using assms by (auto simp: corr_nth image_iff intro!: bexI [of _ j])
  then show "abs_max_exceeds (1 / 2) (snd (corr df ! j))"
    unfolding abs_max_exceeds_iff by (intro exI [of _ 1]) simp
next
  assume sel: "abs_max_exceeds (1 / 2) (snd (corr df ! j))"
  show "np_var (List.map_filter id (snd (df ! j))) \<noteq> 0"
  proof
    assume z: "np_var (List.map_filter id (snd (df ! j))) = 0"
    have "\<And>i. nancorr_pair (snd (df ! max i j)) (snd (df ! min i j)) = None"
    proof -
      fix i
      show "nancorr_pair (snd (df ! max i j)) (snd (df ! min i j)) = None"
      proof (cases "i \<le> j")
        case True
        then have "max i j = j" "min i j = i"
          by simp_all
        then show ?thesis
          using nancorr_pair_constant(1) [OF z] by simp
      next
        case False
        then have "max i j = i" "min i j = j"
          by simp_all
        then show ?thesis
          using nancorr_pair_constant(2) [OF z] by simp
      qed
    qed
    then have "\<And>r. Some r \<notin> set (snd (corr df ! j))"
      using assms by (auto simp: corr_nth)
    with sel show False
      unfolding abs_max_exceeds_iff by blast
  qed
qed

lemma relevant_features_of_corr:
  "relevant_features_of (corr df) =
     map (\<lambda>j. fst (df ! j))
       (filter (\<lambda>j. np_var (List.map_filter id (snd (df ! j))) \<noteq> 0) [0..<length df])"
proof -
  let ?col = "\<lambda>j. map (\<lambda>i. nancorr_pair (snd (df ! max i j)) (snd (df ! min i j))) [0..<length df]"
  have "relevant_features_of (corr df)
      = map fst (filter (\<lambda>(name, col). abs_max_exceeds 0.5 col)
                   (map (\<lambda>j. (fst (df ! j), ?col j)) [0..<length df]))"
    by (simp add: relevant_features_of_def corr_def)
  also have "\<dots> = map (\<lambda>j. fst (df ! j))
                     (filter (\<lambda>j. abs_max_exceeds 0.5 (?col j)) [0..<length df])"
    by (simp add: filter_map comp_def)
  also have "filter (\<lambda>j. abs_max_exceeds 0.5 (?col j)) [0..<length df]
      = filter (\<lambda>j. np_var (List.map_filter id (snd (df ! j))) \<noteq> 0) [0..<length df]"
  proof (rule filter_cong [OF refl])
    fix j assume "j \<in> set [0..<length df]"
    then have j: "j < length df"
      by simp
    from corr_column_selected [OF j] show
      "abs_max_exceeds 0.5 (?col j) = (np_var (List.map_filter id (snd (df ! j))) \<noteq> 0)"
      using j by (simp add: corr_nth)
  qed
  finally show ?thesis .
qed

lemma DataFrame_Inr:
  assumes "DataFrame array names = Inr df"
  shows "df = map (\<lambda>j. (names ! j, column_of array j)) [0..<length names]"
    and "length df = length names"
    and "\<And>j. j < length names \<Longrightarrow> df ! j = (names ! j, column_of array j)"
    and "map fst df = names"
proof -
  show d: "df = map (\<lambda>j. (names ! j, column_of array j)) [0..<length names]"
    using assms by (simp add: DataFrame_def split: if_splits)
  show "length df = length names"
    by (simp add: d)
  show "\<And>j. j < length names \<Longrightarrow> df ! j = (names ! j, column_of array j)"
    by (simp add: d)
  show "map fst df = names"
    by (simp add: d comp_def map_nth)
qed

lemma DataFrame_returns:
  "\<forall>row \<in> set array. length row = length names \<Longrightarrow> \<exists>df. DataFrame array names = Inr df"
  by (simp add: DataFrame_def)

lemma select_columns_indices:
  assumes "distinct (map fst df)" and "\<forall>j \<in> set sel. j < length df"
  shows "select_columns df (map (\<lambda>j. fst (df ! j)) sel) = Inr (map (\<lambda>j. df ! j) sel)"
  using assms(2)
proof (induction sel)
  case Nil
  then show ?case by simp
next
  case (Cons j sel)
  then have j: "j < length df" and rest: "\<forall>j \<in> set sel. j < length df"
    by simp_all
  have "(fst (df ! j), snd (df ! j)) \<in> set df"
    using j by simp
  then have "map_of df (fst (df ! j)) = Some (snd (df ! j))"
    by (rule map_of_is_SomeI [OF assms(1)])
  then show ?case
    using Cons.IH [OF rest] by simp
qed

lemma subseq_map_nth_filter: "subseq (map (\<lambda>j. xs ! j) (filter P [0..<length xs])) xs"
proof -
  have "subseq (map (\<lambda>j. xs ! j) (filter P [0..<length xs])) (map (\<lambda>j. xs ! j) [0..<length xs])"
    by (intro subseq_map subseq_filter_left)
  then show ?thesis
    by (simp add: map_nth)
qed

lemma cell_10_Inr:
  assumes "cell_10 X_columns Xtr_scaled Xte_scaled = Inr v"
  shows "\<exists>train_frame test_frame.
     DataFrame Xtr_scaled X_columns = Inr train_frame \<and>
     DataFrame Xte_scaled X_columns = Inr test_frame \<and>
     correlation_matrix v = corr train_frame \<and>
     relevant_features v = relevant_features_of (corr train_frame) \<and>
     select_columns train_frame (relevant_features v) = Inr (X_train_relevant v) \<and>
     select_columns test_frame (relevant_features v) = Inr (X_test_relevant v)"
proof -
  from assms obtain train_frame where a: "DataFrame Xtr_scaled X_columns = Inr train_frame"
    by (cases "DataFrame Xtr_scaled X_columns") (auto simp: cell_10_def)
  define rf where "rf = relevant_features_of (corr train_frame)"
  from assms a obtain tr where b: "select_columns train_frame rf = Inr tr"
    by (cases "select_columns train_frame rf") (auto simp: cell_10_def Let_def rf_def)
  from assms a b obtain test_frame where c: "DataFrame Xte_scaled X_columns = Inr test_frame"
    by (cases "DataFrame Xte_scaled X_columns") (auto simp: cell_10_def Let_def rf_def)
  from assms a b c obtain te where d: "select_columns test_frame rf = Inr te"
    by (cases "select_columns test_frame rf") (auto simp: cell_10_def Let_def rf_def)
  from assms a b c d have v: "v = \<lparr>correlation_matrix = corr train_frame, relevant_features = rf,
      X_train_relevant = tr, X_test_relevant = te\<rparr>"
    by (simp add: cell_10_def Let_def rf_def)
  show ?thesis
    using a b c d by (simp add: v rf_def)
qed

lemma relevant_features_of_DataFrame:
  assumes "DataFrame array names = Inr df"
  shows "relevant_features_of (corr df) =
     map (\<lambda>j. names ! j)
       (filter (\<lambda>j. np_var (List.map_filter id (column_of array j)) \<noteq> 0) [0..<length names])"
proof -
  note d = DataFrame_Inr [OF assms]
  have "filter (\<lambda>j. np_var (List.map_filter id (snd (df ! j))) \<noteq> 0) [0..<length names]
      = filter (\<lambda>j. np_var (List.map_filter id (column_of array j)) \<noteq> 0) [0..<length names]"
    using d(3) by (intro filter_cong) simp_all
  moreover have "map (\<lambda>j. fst (df ! j))
        (filter (\<lambda>j. np_var (List.map_filter id (column_of array j)) \<noteq> 0) [0..<length names])
      = map (\<lambda>j. names ! j)
        (filter (\<lambda>j. np_var (List.map_filter id (column_of array j)) \<noteq> 0) [0..<length names])"
    using d(3) by (intro map_cong) simp_all
  ultimately show ?thesis
    unfolding relevant_features_of_corr d(2) by simp
qed


text \<open>
  C7. The selected features are a sublist of the column names, in their order; they are
  computed from the training array alone, so the same selection results whatever the
  test array is; and the selected training frame and the selected test frame are the
  columns of the two arrays at the same selected positions.
\<close>

theorem selection_is_projection_from_train:
  assumes "cell_10 X_columns Xtr_scaled Xte_scaled = Inr v" and "distinct X_columns"
  shows "subseq (relevant_features v) X_columns \<and>
    set (relevant_features v) \<subseteq> set X_columns \<and>
    (\<exists>sel. subseq sel [0..<length X_columns] \<and>
       relevant_features v = map (\<lambda>j. X_columns ! j) sel \<and>
       X_train_relevant v = map (\<lambda>j. (X_columns ! j, column_of Xtr_scaled j)) sel \<and>
       X_test_relevant v = map (\<lambda>j. (X_columns ! j, column_of Xte_scaled j)) sel) \<and>
    (\<forall>Xte' v'. cell_10 X_columns Xtr_scaled Xte' = Inr v' \<longrightarrow>
       relevant_features v' = relevant_features v)"
proof -
  from cell_10_Inr [OF assms(1)] obtain train_frame test_frame where
    a: "DataFrame Xtr_scaled X_columns = Inr train_frame" and
    b: "DataFrame Xte_scaled X_columns = Inr test_frame" and
    r: "relevant_features v = relevant_features_of (corr train_frame)" and
    s1: "select_columns train_frame (relevant_features v) = Inr (X_train_relevant v)" and
    s2: "select_columns test_frame (relevant_features v) = Inr (X_test_relevant v)"
    by blast
  define sel where "sel = filter (\<lambda>j. np_var (List.map_filter id (column_of Xtr_scaled j)) \<noteq> 0)
           [0..<length X_columns]"
  have eq: "relevant_features v = map (\<lambda>j. X_columns ! j) sel"
    unfolding r sel_def by (rule relevant_features_of_DataFrame [OF a])
  have sub: "subseq (relevant_features v) X_columns"
    unfolding eq sel_def by (rule subseq_map_nth_filter)
  have set: "set (relevant_features v) \<subseteq> set X_columns"
    unfolding eq sel_def by auto
  have ssel: "subseq sel [0..<length X_columns]"
    unfolding sel_def by (rule subseq_filter_left)
  have in_range: "\<forall>j \<in> set sel. j < length X_columns"
    by (simp add: sel_def)
  note da = DataFrame_Inr [OF a] and db = DataFrame_Inr [OF b]
  have na: "map (\<lambda>j. fst (train_frame ! j)) sel = relevant_features v"
    unfolding eq using in_range da(3) by (intro map_cong) simp_all
  have nb: "map (\<lambda>j. fst (test_frame ! j)) sel = relevant_features v"
    unfolding eq using in_range db(3) by (intro map_cong) simp_all
  have "select_columns train_frame (map (\<lambda>j. fst (train_frame ! j)) sel)
        = Inr (map (\<lambda>j. train_frame ! j) sel)"
    using assms(2) in_range da(2,4) by (intro select_columns_indices) simp_all
  then have tr: "X_train_relevant v = map (\<lambda>j. train_frame ! j) sel"
    unfolding na using s1 by simp
  have "select_columns test_frame (map (\<lambda>j. fst (test_frame ! j)) sel)
        = Inr (map (\<lambda>j. test_frame ! j) sel)"
    using assms(2) in_range db(2,4) by (intro select_columns_indices) simp_all
  then have te: "X_test_relevant v = map (\<lambda>j. test_frame ! j) sel"
    unfolding nb using s2 by simp
  have tr': "X_train_relevant v = map (\<lambda>j. (X_columns ! j, column_of Xtr_scaled j)) sel"
    unfolding tr using in_range da(3) by (intro map_cong) simp_all
  have te': "X_test_relevant v = map (\<lambda>j. (X_columns ! j, column_of Xte_scaled j)) sel"
    unfolding te using in_range db(3) by (intro map_cong) simp_all
  have other: "\<forall>Xte' v'. cell_10 X_columns Xtr_scaled Xte' = Inr v' \<longrightarrow>
       relevant_features v' = relevant_features v"
  proof (intro allI impI)
    fix Xte' v'
    assume "cell_10 X_columns Xtr_scaled Xte' = Inr v'"
    from cell_10_Inr [OF this] a r show "relevant_features v' = relevant_features v"
      by auto
  qed
  show ?thesis
    using sub set ssel eq tr' te' other by blast
qed

lemma cell_10_returns:
  assumes "\<forall>row \<in> set Xtr_scaled. length row = length X_columns"
    and "\<forall>row \<in> set Xte_scaled. length row = length X_columns"
    and "distinct X_columns"
  shows "\<exists>v. cell_10 X_columns Xtr_scaled Xte_scaled = Inr v"
proof -
  from DataFrame_returns [OF assms(1)] obtain train_frame where
    a: "DataFrame Xtr_scaled X_columns = Inr train_frame"
    by blast
  from DataFrame_returns [OF assms(2)] obtain test_frame where
    b: "DataFrame Xte_scaled X_columns = Inr test_frame"
    by blast
  note da = DataFrame_Inr [OF a] and db = DataFrame_Inr [OF b]
  define sel where "sel = filter (\<lambda>j. np_var (List.map_filter id (snd (train_frame ! j))) \<noteq> 0)
           [0..<length train_frame]"
  define rf where "rf = relevant_features_of (corr train_frame)"
  have rf: "rf = map (\<lambda>j. fst (train_frame ! j)) sel"
    unfolding rf_def sel_def by (rule relevant_features_of_corr)
  have in_range: "\<forall>j \<in> set sel. j < length X_columns"
    by (simp add: sel_def da(2))
  have rf': "rf = map (\<lambda>j. fst (test_frame ! j)) sel"
    unfolding rf using in_range da(3) db(3) by (intro map_cong) simp_all
  have s1: "select_columns train_frame rf = Inr (map (\<lambda>j. train_frame ! j) sel)"
    unfolding rf using assms(3) in_range da(2,4) by (intro select_columns_indices) simp_all
  have s2: "select_columns test_frame rf = Inr (map (\<lambda>j. test_frame ! j) sel)"
    unfolding rf' using assms(3) in_range db(2,4) by (intro select_columns_indices) simp_all
  show ?thesis
    using a b s1 s2 by (simp add: cell_10_def Let_def rf_def)
qed


theorem selection_is_projection_from_train_witness:
  "\<exists>v. cell_10 [''a'', ''b''] [[Some (- 1), Some 0], [Some 1, Some 0]] [[Some 5, Some 2]] = Inr v \<and>
       subseq (relevant_features v) [''a'', ''b''] \<and>
       set (relevant_features v) \<subseteq> set [''a'', ''b'']"
proof -
  let ?tr = "[[Some (- 1), Some 0], [Some 1, Some (0::real)]]"
  let ?te = "[[Some 5, Some (2::real)]]"
  have h1: "\<forall>row \<in> set ?tr. length row = length [''a'', ''b'']"
    by simp
  have h2: "\<forall>row \<in> set ?te. length row = length [''a'', ''b'']"
    by simp
  have h3: "distinct [''a'', ''b'']"
    by simp
  from cell_10_returns [OF h1 h2 h3] obtain v where
    v: "cell_10 [''a'', ''b''] ?tr ?te = Inr v"
    by blast
  from selection_is_projection_from_train [OF v h3] v show ?thesis
    by blast
qed

section \<open>Reproducibility\<close>

lemma check_random_state_seed:
  "check_random_state \<lparr>seeded = mt, global_rng = g\<rparr> (Some s) = mt s"
  by (simp add: check_random_state_def)

lemma resample_minorities_global_rng:
  "resample_minorities \<lparr>seeded = mt, global_rng = g1\<rparr> class_column cleaned cd m ms acc
   = resample_minorities \<lparr>seeded = mt, global_rng = g2\<rparr> class_column cleaned cd m ms acc"
  by (induction ms arbitrary: acc)
    (simp_all add: resample_def check_random_state_seed Let_def split: sum.splits)

lemma cell_6_global_rng:
  "cell_6 \<lparr>seeded = mt, global_rng = g1\<rparr> class_column cleaned
   = cell_6 \<lparr>seeded = mt, global_rng = g2\<rparr> class_column cleaned"
  unfolding cell_6_def Let_def sample_frac_1_def check_random_state_seed
    resample_minorities_global_rng [of mt g1 _ _ _ _ _ _ g2]
  by (rule refl)

lemma cell_8_global_rng:
  "cell_8 \<lparr>seeded = mt, global_rng = g1\<rparr> drop_class class_column balanced_data
   = cell_8 \<lparr>seeded = mt, global_rng = g2\<rparr> drop_class class_column balanced_data"
  unfolding cell_8_def train_test_split_def check_random_state_seed
  by (rule refl)

text \<open>
  C9. Every random call of cells 6 and 8 passes the seed 42, so the generator it uses is
  the one built from that seed and never the global generator of the process: two runs
  on the same cleaned frame, whatever state the global generator is in at each, give the
  same balanced frame and the same training and test rows and labels (or end with the
  same exception).
\<close>

theorem balance_and_split_reproducible:
  "cell_6 \<lparr>seeded = mt, global_rng = g1\<rparr> class_column cleaned
     = cell_6 \<lparr>seeded = mt, global_rng = g2\<rparr> class_column cleaned \<and>
   cells_6_to_8 \<lparr>seeded = mt, global_rng = g1\<rparr> drop_class class_column cleaned
     = cells_6_to_8 \<lparr>seeded = mt, global_rng = g2\<rparr> drop_class class_column cleaned"
  unfolding cells_6_to_8_def
    cell_6_global_rng [of mt g1 class_column cleaned g2]
    cell_8_global_rng [of mt g1 drop_class class_column _ g2]
  by simp

text \<open>
  The seed matters: the same call without a seed reads the global generator, and its
  result changes with it.
\<close>

lemma unseeded_resample_reads_global_rng:
  "resample \<lparr>seeded = mt, global_rng = (\<lambda>i. 0)\<rparr> [a, b] 1 None = Inr [a] \<and>
   resample \<lparr>seeded = mt, global_rng = (\<lambda>i. 1)\<rparr> [a, b] 1 None = Inr [b]"
  by (simp add: resample_def randint_def check_random_state_def)

end
